theory Spec2Isabelle
  imports Main "HOL-Library.Sublist"
begin

section \<open>Strings of the host language\<close>

text \<open>
  Source strings are modelled as \<^typ>\<open>string\<close>. The helpers below are the string
  methods the services call. The regular expressions of the source use \<open>.\<close>, which
  does not cross a line terminator; of the line terminators only line feed and
  carriage return exist in \<^typ>\<open>char\<close>.
\<close>

fun startsWith :: "string \<Rightarrow> string \<Rightarrow> bool" where
  "startsWith s [] = True"
| "startsWith [] (p # ps) = False"
| "startsWith (c # cs) (p # ps) = (c = p \<and> startsWith cs ps)"

text \<open>\<open>s.includes(sub)\<close>\<close>

fun strIncludes :: "string \<Rightarrow> string \<Rightarrow> bool" where
  "strIncludes [] sub = (sub = [])"
| "strIncludes (c # cs) sub = (startsWith (c # cs) sub \<or> strIncludes cs sub)"

text \<open>\<open>s.replace(pat, rep)\<close> with a string pattern: the first occurrence only.\<close>

fun replaceFirst :: "string \<Rightarrow> string \<Rightarrow> string \<Rightarrow> string" where
  "replaceFirst [] pat rep = (if pat = [] then rep else [])"
| "replaceFirst (c # cs) pat rep =
     (if startsWith (c # cs) pat then rep @ drop (length pat) (c # cs)
      else c # replaceFirst cs pat rep)"

text \<open>\<open>s.replace(/\/$/, '')\<close>: one trailing slash is removed.\<close>

definition stripTrailingSlash :: "string \<Rightarrow> string" where
  "stripTrailingSlash s =
     (if s \<noteq> [] \<and> last s = CHR ''/'' then butlast s else s)"

definition lineTerminator :: "char \<Rightarrow> bool" where
  "lineTerminator c = (c = CHR 0x0A \<or> c = CHR 0x0D)"

text \<open>
  \<open>s.replace(/M.*$/, '')\<close> for a literal marker \<open>M\<close> out of \<open>ms\<close>: the match starts
  at the leftmost position where a marker stands and no line terminator follows up to
  the end of the string; everything from there on is removed.
\<close>

definition markerToEnd :: "string list \<Rightarrow> string \<Rightarrow> bool" where
  "markerToEnd ms s =
     (\<exists>m \<in> set ms. startsWith s m \<and> \<not> (\<exists>c \<in> set (drop (length m) s). lineTerminator c))"

fun stripFromMarker :: "string list \<Rightarrow> string \<Rightarrow> string" where
  "stripFromMarker ms [] = []"
| "stripFromMarker ms (c # cs) =
     (if markerToEnd ms (c # cs) then [] else c # stripFromMarker ms cs)"

text \<open>\<open>s.toLowerCase()\<close> on ASCII letters.\<close>

definition lowerChar :: "char \<Rightarrow> char" where
  "lowerChar c =
     (case map_of (zip ''ABCDEFGHIJKLMNOPQRSTUVWXYZ'' ''abcdefghijklmnopqrstuvwxyz'') c of
        Some d \<Rightarrow> d
      | None \<Rightarrow> c)"

definition toLowerCase :: "string \<Rightarrow> string" where
  "toLowerCase s = map lowerChar s"

text \<open>The character class \<open>[a-z0-9]\<close> under the flag \<open>i\<close>.\<close>

definition alnumChar :: "char \<Rightarrow> bool" where
  "alnumChar c =
     (c \<in> set ''abcdefghijklmnopqrstuvwxyzABCDEFGHIJKLMNOPQRSTUVWXYZ0123456789'')"

text \<open>
  \<open>/\.[a-z0-9]+$/i.test(p)\<close>: the string ends in a dot followed by at least one
  letter or digit. The letters and digits at the end form a maximal run, and the
  character before the run has to be the dot.
\<close>

definition hasExtension :: "string \<Rightarrow> bool" where
  "hasExtension p =
     (let r = rev p in
      takeWhile alnumChar r \<noteq> [] \<and>
      (case dropWhile alnumChar r of [] \<Rightarrow> False | c # _ \<Rightarrow> c = CHR ''.''))"

text \<open>
  \<open>s.substring(0, s.lastIndexOf('/'))\<close>: the text before the last slash; without a
  slash the index is \<open>-1\<close> and the substring is empty.
\<close>

definition beforeLastSlash :: "string \<Rightarrow> string" where
  "beforeLastSlash s =
     (if CHR ''/'' \<in> set s then rev (tl (dropWhile (\<lambda>c. c \<noteq> CHR ''/'') (rev s))) else [])"

section \<open>Catalog documents\<close>

record repository =
  rtype :: string
  url :: string
  branch :: "string option"

record catalogMetadata =
  cid :: string
  cname :: string
  repo :: repository

text \<open>
  An artifact of a manifest, with the fields the services read. \<open>ArtifactWithSource\<close>
  extends it by the catalog it was indexed from and its resolved source URL.
\<close>

record artifact =
  aid :: string
  atype :: string
  aname :: string
  path :: string
  version :: string
  dependencies :: "string list"
  supportingFiles :: "string list option"

record artifactWithSource = artifact +
  catalogId :: string
  sourceUrl :: string

record catalog =
  metadata :: catalogMetadata
  artifacts :: "artifact list"

section \<open>UrlResolver\<close>

text \<open>\<open>branch || 'main'\<close>: an absent or empty branch is replaced.\<close>

definition branchOrMain :: "string option \<Rightarrow> string" where
  "branchOrMain b = (case b of None \<Rightarrow> ''main'' | Some s \<Rightarrow> if s = [] then ''main'' else s)"

definition resolveGitLabUrl :: "string \<Rightarrow> string option \<Rightarrow> string \<Rightarrow> string" where
  "resolveGitLabUrl repoUrl br artifactPath =
     (let cleanUrl = stripTrailingSlash (stripFromMarker [''/-/raw/''] repoUrl);
          branchName = branchOrMain br
      in cleanUrl @ ''/-/raw/'' @ branchName @ ''/'' @ artifactPath)"

definition resolveGitHubUrl :: "string \<Rightarrow> string option \<Rightarrow> string \<Rightarrow> string" where
  "resolveGitHubUrl repoUrl br artifactPath =
     (let cleanUrl0 =
            (if strIncludes repoUrl ''github.com'' \<and> \<not> strIncludes repoUrl ''raw.githubusercontent.com''
             then replaceFirst repoUrl ''github.com'' ''raw.githubusercontent.com''
             else repoUrl);
          cleanUrl = stripTrailingSlash (stripFromMarker [''/raw/'', ''/blob/''] cleanUrl0);
          branchName = branchOrMain br
      in cleanUrl @ ''/'' @ branchName @ ''/'' @ artifactPath)"

text \<open>
  The generic layout asks the platform's URL parser for the path of the cleaned URL.
  The parser is the parameter \<open>pathnameOf\<close>: \<open>None\<close> when \<open>new URL\<close> throws,
  otherwise the \<open>pathname\<close> of the parsed URL.
\<close>

definition usesParentDirectory :: "(string \<Rightarrow> string option) \<Rightarrow> string \<Rightarrow> bool" where
  "usesParentDirectory pathnameOf cleanUrl =
     (case pathnameOf cleanUrl of
        None \<Rightarrow> False
      | Some pathname \<Rightarrow> pathname \<noteq> [] \<and> pathname \<noteq> ''/'' \<and> hasExtension pathname)"

definition resolveGenericUrl ::
  "(string \<Rightarrow> string option) \<Rightarrow> string \<Rightarrow> string \<Rightarrow> string" where
  "resolveGenericUrl pathnameOf baseUrl artifactPath =
     (let cleanUrl = stripTrailingSlash baseUrl in
      if usesParentDirectory pathnameOf cleanUrl
      then beforeLastSlash cleanUrl @ ''/'' @ artifactPath
      else cleanUrl @ ''/'' @ artifactPath)"

definition resolveArtifactUrl ::
  "(string \<Rightarrow> string option) \<Rightarrow> catalogMetadata \<Rightarrow> 'a artifact_scheme \<Rightarrow> string" where
  "resolveArtifactUrl pathnameOf meta a =
     (let r = repo meta; t = toLowerCase (rtype r) in
      if t = ''gitlab'' then resolveGitLabUrl (url r) (branch r) (path a)
      else if t = ''github'' then resolveGitHubUrl (url r) (branch r) (path a)
      else resolveGenericUrl pathnameOf (url r) (path a))"

text \<open>
  The parser of the platform is not part of the service, and the resolver above takes
  it as the parameter \<open>pathnameOf\<close>. For the concrete cases, a model of it on the
  URLs that catalogs are published at: the \<open>pathname\<close> of \<open>new URL(s)\<close> for a URL
  written \<open>scheme://authority/path?query#fragment\<close> with one of the schemes \<open>http\<close>,
  \<open>https\<close>, \<open>ws\<close>, \<open>wss\<close>, \<open>ftp\<close>, in printable ASCII, without dot segments,
  backslashes or characters that the parser strips or percent-encodes, and with an
  authority that the parser accepts. For these URLs the path is never empty: without a
  path the pathname is \<open>/\<close>. The model says nothing reliable about other inputs: it
  answers that the parser throws for every other scheme and for the forms with fewer
  slashes, which the platform parses, and it does not check the authority, of which
  the platform rejects some (a port above 65535, a forbidden host character). The
  properties below use it on URLs of the first kind and on bare domains; for a bare
  domain the resolver concatenates both when the parser throws and when the pathname
  is \<open>/\<close>, so that the answer for an authority that the platform rejects does not
  matter there.
\<close>

definition schemeChar :: "char \<Rightarrow> bool" where
  "schemeChar c = (alnumChar c \<or> c \<in> set ''+-.'')"

definition urlPathname :: "string \<Rightarrow> string option" where
  "urlPathname s =
     (let scheme = takeWhile schemeChar s;
          rest = dropWhile schemeChar s
      in if toLowerCase scheme \<notin> set [''http'', ''https'', ''ws'', ''wss'', ''ftp'']
            \<or> \<not> startsWith rest ''://'' then None
         else
           let afterSlashes = drop 3 rest;
               authority = takeWhile (\<lambda>c. c \<notin> set ''/?#'') afterSlashes;
               tail = dropWhile (\<lambda>c. c \<notin> set ''/?#'') afterSlashes;
               p = takeWhile (\<lambda>c. c \<notin> set ''?#'') tail
           in if authority = [] then None
              else if p = [] then Some ''/'' else Some p)"

section \<open>Errors\<close>

text \<open>
  What a \<open>throw\<close> carries: an \<open>Error\<close> with its message, or some other value. The
  handlers of the services read \<open>err instanceof Error ? err.message : fallback\<close>.
\<close>

datatype thrown = JsError string | NonError

definition errorMessage :: "thrown \<Rightarrow> string \<Rightarrow> string" where
  "errorMessage e fallback = (case e of JsError m \<Rightarrow> m | NonError \<Rightarrow> fallback)"

section \<open>The installations table\<close>

record installationRow =
  rowId :: nat
  artifact_id :: string
  catalog_id :: string
  installedVersion :: string
  installed_path :: string
  installed_at :: nat
  last_used :: "nat option"

text \<open>
  \<open>getInstallation\<close>: the row selected by \<open>catalog_id\<close> and \<open>artifact_id\<close>, if any.
\<close>

definition getInstallation ::
  "installationRow list \<Rightarrow> string \<Rightarrow> string \<Rightarrow> installationRow option" where
  "getInstallation rows c a = find (\<lambda>r. catalog_id r = c \<and> artifact_id r = a) rows"

section \<open>Dependency resolution\<close>

text \<open>
  The search service is a collaborator of the artifact service; its two queries are
  parameters: \<open>getArtifact catalogId artifactId\<close>, and \<open>searchTop query\<close> for
  \<open>search({ query, pageSize: 1 }).artifacts[0] || null\<close>.
\<close>

record searchService =
  getArtifact :: "string \<Rightarrow> string \<Rightarrow> artifactWithSource option"
  searchTop :: "string \<Rightarrow> artifactWithSource option"

text \<open>
  The lookup of one dependency id: \<open>getArtifact\<close> in a catalog first, then the search.
  The closure \<open>resolve\<close> passes \<open>artifact.catalogId\<close> of the artifact whose
  dependencies are resolved, for the ids of its dependencies as for its own.
\<close>

definition findDependency ::
  "searchService \<Rightarrow> string \<Rightarrow> string \<Rightarrow> artifactWithSource option" where
  "findDependency svc cat depId =
     (case getArtifact svc cat depId of
        Some dep \<Rightarrow> Some dep
      | None \<Rightarrow> searchTop svc depId)"

text \<open>The two variables that the closure \<open>resolve\<close> updates.\<close>

record resolution =
  visited :: "string set"
  deps :: "artifactWithSource list"

text \<open>
  \<open>resolve\<close> is the inner closure and \<open>resolveEach\<close> a loop \<open>for (const d of ds) await
  resolve(d)\<close>. The first argument bounds the depth of the recursion: the result is
  \<open>None\<close> when the bound is reached, otherwise what the closure throws (\<open>Inl\<close>) or the
  updated variables (\<open>Inr\<close>).
\<close>

fun resolve ::
  "nat \<Rightarrow> searchService \<Rightarrow> installationRow list \<Rightarrow> string \<Rightarrow> string \<Rightarrow> resolution
     \<Rightarrow> (thrown + resolution) option"
and resolveEach ::
  "nat \<Rightarrow> searchService \<Rightarrow> installationRow list \<Rightarrow> string \<Rightarrow> string list \<Rightarrow> resolution
     \<Rightarrow> (thrown + resolution) option"
where
  "resolve 0 svc rows cat depId st = None"
| "resolve (Suc n) svc rows cat depId st =
     (if depId \<in> visited st then Some (Inr st)
      else
        let st1 = st\<lparr>visited := insert depId (visited st)\<rparr> in
        case findDependency svc cat depId of
          None \<Rightarrow> Some (Inl (JsError (''Dependency not found: '' @ depId)))
        | Some dep \<Rightarrow>
            if getInstallation rows (catalogId dep) (aid dep) \<noteq> None then Some (Inr st1)
            else
              (case resolveEach n svc rows cat (dependencies dep) st1 of
                 None \<Rightarrow> None
               | Some (Inl e) \<Rightarrow> Some (Inl e)
               | Some (Inr st2) \<Rightarrow> Some (Inr (st2\<lparr>deps := deps st2 @ [dep]\<rparr>))))"
| "resolveEach n svc rows cat [] st = Some (Inr st)"
| "resolveEach n svc rows cat (d # ds) st =
     (case resolve n svc rows cat d st of
        None \<Rightarrow> None
      | Some (Inl e) \<Rightarrow> Some (Inl e)
      | Some (Inr st') \<Rightarrow> resolveEach n svc rows cat ds st')"

definition resolveDependencies ::
  "nat \<Rightarrow> searchService \<Rightarrow> installationRow list \<Rightarrow> artifactWithSource
     \<Rightarrow> (thrown + artifactWithSource list) option" where
  "resolveDependencies n svc rows a =
     (if dependencies a = [] then Some (Inr [])
      else
        case resolveEach n svc rows (catalogId a) (dependencies a) \<lparr>visited = {}, deps = []\<rparr> of
          None \<Rightarrow> None
        | Some (Inl e) \<Rightarrow> Some (Inl e)
        | Some (Inr st) \<Rightarrow> Some (Inr (deps st)))"

text \<open>
  The dependency graph of a resolution: the ids that a dependency id leads to are the
  dependencies of the artifact found for it, unless that artifact is installed.
\<close>

definition nextIds :: "searchService \<Rightarrow> installationRow list \<Rightarrow> string \<Rightarrow> string \<Rightarrow> string set" where
  "nextIds svc rows cat d =
     (case findDependency svc cat d of
        None \<Rightarrow> {}
      | Some dep \<Rightarrow>
          if getInstallation rows (catalogId dep) (aid dep) \<noteq> None then {}
          else set (dependencies dep))"

text \<open>
  The artifact that a dependency id adds to the list: the one found for it, unless that
  artifact is installed.
\<close>

definition toInstall ::
  "searchService \<Rightarrow> installationRow list \<Rightarrow> string \<Rightarrow> string \<Rightarrow> artifactWithSource option"
  where
  "toInstall svc rows cat t =
     (case findDependency svc cat t of
        None \<Rightarrow> None
      | Some y \<Rightarrow> if getInstallation rows (catalogId y) (aid y) \<noteq> None then None else Some y)"

text \<open>
  The ids of the dependency graph of an artifact: its own dependency ids and every id
  that one of them leads to.
\<close>

inductive_set graphIds ::
  "searchService \<Rightarrow> installationRow list \<Rightarrow> artifactWithSource \<Rightarrow> string set"
  for svc :: searchService and rows :: "installationRow list" and a :: artifactWithSource
  where
    direct: "d \<in> set (dependencies a) \<Longrightarrow> d \<in> graphIds svc rows a"
  | step: "d \<in> graphIds svc rows a \<Longrightarrow> u \<in> nextIds svc rows (catalogId a) d
             \<Longrightarrow> u \<in> graphIds svc rows a"

text \<open>
  A set of ids is closed when it holds the dependencies of the artifact and every id
  that one of its members leads to; the ids of the graph are the least closed set.
\<close>

definition closedIds ::
  "searchService \<Rightarrow> installationRow list \<Rightarrow> artifactWithSource \<Rightarrow> string set \<Rightarrow> bool" where
  "closedIds svc rows a U =
     (set (dependencies a) \<subseteq> U \<and> (\<forall>d \<in> U. nextIds svc rows (catalogId a) d \<subseteq> U))"

text \<open>
  The graph on a set of ids is acyclic when a rank falls along every edge that leaves
  one of these ids.
\<close>

definition acyclicIds ::
  "searchService \<Rightarrow> installationRow list \<Rightarrow> string \<Rightarrow> string set \<Rightarrow> (string \<Rightarrow> nat) \<Rightarrow> bool"
  where
  "acyclicIds svc rows cat U rk = (\<forall>d \<in> U. \<forall>u \<in> nextIds svc rows cat d. rk u < rk d)"

text \<open>
  An install order: each artifact of the list comes after the artifacts found for its
  own dependency ids, as far as those are in the list.
\<close>

definition prerequisitesPrecede ::
  "searchService \<Rightarrow> string \<Rightarrow> artifactWithSource list \<Rightarrow> bool" where
  "prerequisitesPrecede svc cat xs =
     (\<forall>i < length xs. \<forall>u \<in> set (dependencies (xs ! i)).
        case findDependency svc cat u of
          None \<Rightarrow> True
        | Some y \<Rightarrow> y \<in> set xs \<longrightarrow> y \<in> set (take i xs))"

text \<open>
  An id is settled by a list when the artifact found for it is installed or in the
  list. A list is ordered from position \<open>k\<close> on when every dependency id of an artifact
  at a later position is settled by the artifacts in front of it.
\<close>

definition settled ::
  "searchService \<Rightarrow> installationRow list \<Rightarrow> string \<Rightarrow> artifactWithSource list \<Rightarrow> string \<Rightarrow> bool"
  where
  "settled svc rows cat xs t =
     (case findDependency svc cat t of
        None \<Rightarrow> False
      | Some y \<Rightarrow> getInstallation rows (catalogId y) (aid y) \<noteq> None \<or> y \<in> set xs)"

definition orderedFrom ::
  "searchService \<Rightarrow> installationRow list \<Rightarrow> string \<Rightarrow> nat \<Rightarrow> artifactWithSource list \<Rightarrow> bool"
  where
  "orderedFrom svc rows cat k xs =
     (\<forall>i. k \<le> i \<and> i < length xs \<longrightarrow>
        (\<forall>u \<in> set (dependencies (xs ! i)). settled svc rows cat (take i xs) u))"

text \<open>
  No two ids of a set add the same artifact to the list.
\<close>

definition oneIdPerArtifact ::
  "searchService \<Rightarrow> installationRow list \<Rightarrow> string \<Rightarrow> string set \<Rightarrow> bool" where
  "oneIdPerArtifact svc rows cat U =
     (\<forall>t \<in> U. \<forall>t' \<in> U.
        toInstall svc rows cat t \<noteq> None \<and> toInstall svc rows cat t = toInstall svc rows cat t'
          \<longrightarrow> t = t')"

text \<open>
  How a call of \<open>resolve\<close> changes its two variables: ids are added to \<open>visited\<close> and
  artifacts are appended to \<open>deps\<close>; each appended artifact was found for an id visited
  during the call, is not installed, and has all its dependency ids visited.
\<close>

definition fresh ::
  "searchService \<Rightarrow> installationRow list \<Rightarrow> string \<Rightarrow> string set \<Rightarrow> string set
     \<Rightarrow> artifactWithSource \<Rightarrow> bool" where
  "fresh svc rows cat V V' x =
     ((\<exists>t \<in> V' - V. findDependency svc cat t = Some x) \<and>
      getInstallation rows (catalogId x) (aid x) = None \<and>
      set (dependencies x) \<subseteq> V')"

definition extendsBy ::
  "searchService \<Rightarrow> installationRow list \<Rightarrow> string \<Rightarrow> resolution \<Rightarrow> resolution \<Rightarrow> bool" where
  "extendsBy svc rows cat st st' =
     (visited st \<subseteq> visited st' \<and>
      (\<exists>new. deps st' = deps st @ new \<and>
         (\<forall>x \<in> set new. fresh svc rows cat (visited st) (visited st') x)))"

text \<open>
  The ids that a call of \<open>resolve\<close> has pushed an artifact for: the list \<open>deps\<close>
  grows by one artifact for each id visited during the call whose artifact is not
  installed.
\<close>

definition pushedFor ::
  "searchService \<Rightarrow> installationRow list \<Rightarrow> string \<Rightarrow> resolution \<Rightarrow> resolution \<Rightarrow> string list
     \<Rightarrow> bool" where
  "pushedFor svc rows cat st st' ids =
     (deps st' = deps st @ map (\<lambda>t. the (toInstall svc rows cat t)) ids \<and>
      distinct ids \<and>
      set ids = {t \<in> visited st' - visited st. toInstall svc rows cat t \<noteq> None})"

section \<open>The local store\<close>

text \<open>
  The tables of the store as lists of rows. A catalog row keeps the metadata of the
  manifest (stored as JSON text in the source); an artifact row keeps its key, the
  resolved URL and the indexed artifact. \<open>lastInstallationId\<close> is the counter behind
  \<open>AUTOINCREMENT\<close>.
\<close>

record catalogRow =
  catId :: string
  catUrl :: string
  catEnabled :: bool
  catMetadata :: catalogMetadata
  last_fetched :: "nat option"
  status :: string
  catError :: "string option"
  created_at :: nat
  updated_at :: nat

record artifactRow =
  artId :: string
  artCatalogId :: string
  source_url :: string
  indexed :: artifact

record database =
  catalogs :: "catalogRow list"
  artifactRows :: "artifactRow list"
  installations :: "installationRow list"
  lastInstallationId :: nat

section \<open>The host of the artifact service\<close>

record authConfig =
  authType :: string
  token :: "string option"
  username :: "string option"
  password :: "string option"

record catalogRepoConfig =
  configId :: string
  configUrl :: string
  enabled :: bool
  auth :: "authConfig option"

datatype action = Keep | Replace | Rename

record conflictResolution =
  action :: action
  newName :: "string option"

record installResult =
  success :: bool
  resultArtifact :: artifactWithSource
  resultPath :: string
  error :: "string option"

text \<open>
  What the service calls outside itself, as parameters: the workspace folder, the two
  tables of \<open>config/constants\<close>, the \<open>path\<close> module, the file system of the workspace
  (an abstract state \<open>'fs\<close> with operations that succeed or throw), the HTTP client,
  the authentication service, the two dialogs of the window, and the clock of the
  store.
\<close>

record 'fs host =
  workspaceFolder :: "string option"
  artifactPaths :: "string \<Rightarrow> string"
  artifactExtensions :: "string \<Rightarrow> string"
  pathJoin :: "string list \<Rightarrow> string"
  pathDirname :: "string \<Rightarrow> string"
  pathExtname :: "string \<Rightarrow> string"
  pathBasename :: "string \<Rightarrow> string"
  fsStat :: "'fs \<Rightarrow> string \<Rightarrow> bool"
  fsCreateDirectory :: "'fs \<Rightarrow> string \<Rightarrow> thrown + 'fs"
  fsWriteFile :: "'fs \<Rightarrow> string \<Rightarrow> string \<Rightarrow> thrown + 'fs"
  fetchText :: "string \<Rightarrow> authConfig option \<Rightarrow> thrown + string"
  resolveAuth :: "string \<Rightarrow> authConfig option \<Rightarrow> thrown + authConfig option"
  showWarningMessage :: "string \<Rightarrow> string option"
  showInputBox :: "string \<Rightarrow> string option"
  now :: nat

text \<open>
  The state that an install changes: the file system, the store, and the list of the
  URLs requested so far.
\<close>

record 'fs world =
  fs :: 'fs
  db :: database
  requests :: "string list"

section \<open>Helpers of the artifact service\<close>

fun indexOf :: "string \<Rightarrow> string \<Rightarrow> nat option" where
  "indexOf [] sub = (if sub = [] then Some 0 else None)"
| "indexOf (c # cs) sub =
     (if startsWith (c # cs) sub then Some 0 else map_option Suc (indexOf cs sub))"

text \<open>
  A match at the start of a string against a pattern of literals (\<open>Some\<close>) and
  segments \<open>[^/]+\<close> (\<open>None\<close>); the result is the matched text. Every literal after a
  segment starts with a slash, so a segment is the longest run without a slash.
\<close>

fun matchPrefix :: "string option list \<Rightarrow> string \<Rightarrow> string option" where
  "matchPrefix [] s = Some []"
| "matchPrefix (Some lit # ps) s =
     (if startsWith s lit
      then map_option (\<lambda>m. lit @ m) (matchPrefix ps (drop (length lit) s))
      else None)"
| "matchPrefix (None # ps) s =
     (let seg = takeWhile (\<lambda>c. c \<noteq> CHR ''/'') s in
      if seg = [] then None
      else map_option (\<lambda>m. seg @ m) (matchPrefix ps (dropWhile (\<lambda>c. c \<noteq> CHR ''/'') s)))"

definition matchEither :: "string option list \<Rightarrow> string option list \<Rightarrow> string \<Rightarrow> string option" where
  "matchEither p q s = (case matchPrefix p s of Some m \<Rightarrow> Some m | None \<Rightarrow> matchPrefix q s)"

definition gitlabRawPattern :: "string \<Rightarrow> string option list" where
  "gitlabRawPattern scheme =
     [Some (scheme @ ''://''), None, Some ''/'', None, Some ''/'', None, Some ''/-/raw/'', None]"

definition githubRawPattern :: "string \<Rightarrow> string option list" where
  "githubRawPattern scheme =
     [Some (scheme @ ''://raw.githubusercontent.com/''), None, Some ''/'', None, Some ''/'', None]"

definition getCatalogBaseUrl :: "string \<Rightarrow> string \<Rightarrow> string" where
  "getCatalogBaseUrl srcUrl artifactPath =
     (case indexOf srcUrl artifactPath of
        Some (Suc k) \<Rightarrow> stripTrailingSlash (take (Suc k) srcUrl)
      | _ \<Rightarrow>
        (case matchEither (gitlabRawPattern ''https'') (gitlabRawPattern ''http'') srcUrl of
           Some m \<Rightarrow> m
         | None \<Rightarrow>
           (case matchEither (githubRawPattern ''https'') (githubRawPattern ''http'') srcUrl of
              Some m \<Rightarrow> m
            | None \<Rightarrow> beforeLastSlash srcUrl)))"

text \<open>\<open>s.split('/')\<close>, \<open>parts.join(sep)\<close> and \<open>parts.findIndex(p)\<close>.\<close>

fun splitSlash :: "string \<Rightarrow> string list" where
  "splitSlash [] = [[]]"
| "splitSlash (c # cs) =
     (if c = CHR ''/'' then [] # splitSlash cs
      else (case splitSlash cs of p # ps \<Rightarrow> (c # p) # ps | [] \<Rightarrow> [[c]]))"

fun joinWith :: "string \<Rightarrow> string list \<Rightarrow> string" where
  "joinWith sep [] = []"
| "joinWith sep [x] = x"
| "joinWith sep (x # y # zs) = x @ sep @ joinWith sep (y # zs)"

fun findIndex :: "('a \<Rightarrow> bool) \<Rightarrow> 'a list \<Rightarrow> nat option" where
  "findIndex P [] = None"
| "findIndex P (x # xs) = (if P x then Some 0 else map_option Suc (findIndex P xs))"

definition partsAfter :: "string list \<Rightarrow> string \<Rightarrow> string option" where
  "partsAfter parts name =
     (case findIndex (\<lambda>p. p = name) parts of
        None \<Rightarrow> None
      | Some i \<Rightarrow> if Suc i < length parts then Some (joinWith ''/'' (drop (Suc i) parts)) else None)"

definition extractRelativePath :: "string \<Rightarrow> string \<Rightarrow> string" where
  "extractRelativePath fullPath artifactId =
     (let parts = splitSlash fullPath in
      case partsAfter parts (''.'' @ artifactId) of
        Some rel \<Rightarrow> rel
      | None \<Rightarrow>
        (case partsAfter parts artifactId of
           Some rel \<Rightarrow> rel
         | None \<Rightarrow> if last parts = [] then fullPath else last parts))"

definition getWorkspaceRootPath :: "'fs host \<Rightarrow> thrown + string" where
  "getWorkspaceRootPath h =
     (case workspaceFolder h of
        None \<Rightarrow> Inl (JsError ''No workspace folder open'')
      | Some root \<Rightarrow> Inr root)"

definition getInstallPath :: "'fs host \<Rightarrow> artifactWithSource \<Rightarrow> string \<Rightarrow> thrown + string" where
  "getInstallPath h a installRoot =
     (case getWorkspaceRootPath h of
        Inl e \<Rightarrow> Inl e
      | Inr workspaceRoot \<Rightarrow>
          Inr (pathJoin h [workspaceRoot, installRoot, artifactPaths h (atype a),
                          aid a @ artifactExtensions h (atype a)]))"

text \<open>\<open>checkConflict\<close>: a failing \<open>stat\<close> means that nothing is there.\<close>

definition checkConflict :: "'fs host \<Rightarrow> 'fs \<Rightarrow> string \<Rightarrow> bool" where
  "checkConflict h f targetPath = fsStat h f targetPath"

text \<open>\<open>path.basename(p, ext)\<close> in terms of \<open>path.basename(p)\<close>.\<close>

definition basenameWithout :: "'fs host \<Rightarrow> string \<Rightarrow> string \<Rightarrow> string" where
  "basenameWithout h p ext =
     (let b = pathBasename h p in
      if ext \<noteq> [] \<and> b \<noteq> ext \<and> suffix ext b then take (length b - length ext) b else b)"

text \<open>
  The input box accepts a name only if \<open>validateInput\<close> returns \<open>null\<close> for it; what it
  returns is taken as it comes.
\<close>

definition promptConflictResolution ::
  "'fs host \<Rightarrow> string \<Rightarrow> string \<Rightarrow> conflictResolution option" where
  "promptConflictResolution h artifactName targetPath =
     (case showWarningMessage h
             ([CHR 0x22] @ pathBasename h targetPath @ [CHR 0x22]
                @ '' already exists. What would you like to do?'') of
        None \<Rightarrow> None
      | Some act \<Rightarrow>
          if act = [] then None
          else if act = ''Replace'' then Some \<lparr>action = Replace, newName = None\<rparr>
          else if act = ''Keep Existing'' then Some \<lparr>action = Keep, newName = None\<rparr>
          else if act = ''Rename'' then
            (case showInputBox h
                    (basenameWithout h targetPath (pathExtname h targetPath) @ ''-2'') of
               None \<Rightarrow> None
             | Some n \<Rightarrow> if n = [] then None else Some \<lparr>action = Rename, newName = Some n\<rparr>)
          else None)"

section \<open>Writing an artifact\<close>

text \<open>
  \<open>INSERT OR REPLACE INTO installations\<close>: a row with the same artifact and catalog is
  replaced; the foreign keys of the table need the catalog and the artifact to be in
  the store.
\<close>

definition recordInstallation ::
  "database \<Rightarrow> artifactWithSource \<Rightarrow> string \<Rightarrow> nat \<Rightarrow> thrown + database" where
  "recordInstallation d a targetPath t =
     (if \<not> (\<exists>c \<in> set (catalogs d). catId c = catalogId a)
         \<or> \<not> (\<exists>r \<in> set (artifactRows d). artId r = aid a \<and> artCatalogId r = catalogId a)
      then Inl (JsError ''FOREIGN KEY constraint failed'')
      else
        Inr (d\<lparr>installations :=
                 filter (\<lambda>r. \<not> (artifact_id r = aid a \<and> catalog_id r = catalogId a))
                   (installations d)
                 @ [\<lparr>rowId = Suc (lastInstallationId d), artifact_id = aid a,
                     catalog_id = catalogId a, installedVersion = version a,
                     installed_path = targetPath, installed_at = t, last_used = None\<rparr>],
               lastInstallationId := Suc (lastInstallationId d)\<rparr>))"

text \<open>
  One round of the loop over the supporting files: whatever is thrown is logged and
  the loop goes on.
\<close>

definition installSupportingFile ::
  "'fs host \<Rightarrow> string \<Rightarrow> string \<Rightarrow> string \<Rightarrow> authConfig option \<Rightarrow> string \<Rightarrow> 'fs world
     \<Rightarrow> 'fs world" where
  "installSupportingFile h catalogBaseUrl supportingDir artifactId au filePath w =
     (let fileUrl = catalogBaseUrl @ ''/'' @ filePath;
          w1 = w\<lparr>requests := requests w @ [fileUrl]\<rparr>
      in case fetchText h fileUrl au of
           Inl e \<Rightarrow> w1
         | Inr content \<Rightarrow>
             (let targetPath = pathJoin h [supportingDir, extractRelativePath filePath artifactId]
              in (case fsCreateDirectory h (fs w1) (pathDirname h targetPath) of
                    Inl e \<Rightarrow> w1
                  | Inr f1 \<Rightarrow>
                      (case fsWriteFile h f1 targetPath content of
                         Inl e \<Rightarrow> w1\<lparr>fs := f1\<rparr>
                       | Inr f2 \<Rightarrow> w1\<lparr>fs := f2\<rparr>))))"

definition installSupportingFiles ::
  "'fs host \<Rightarrow> artifactWithSource \<Rightarrow> authConfig option \<Rightarrow> 'fs world \<Rightarrow> (thrown + unit) \<times> 'fs world"
  where
  "installSupportingFiles h a au w =
     (case supportingFiles a of
        None \<Rightarrow> (Inr (), w)
      | Some files \<Rightarrow>
          if files = [] then (Inr (), w)
          else
            (case getWorkspaceRootPath h of
               Inl e \<Rightarrow> (Inl e, w)
             | Inr workspaceRoot \<Rightarrow>
                 (Inr (),
                  fold (installSupportingFile h (getCatalogBaseUrl (sourceUrl a) (path a))
                          (pathJoin h [workspaceRoot, ''.github'', ''.'' @ aid a]) (aid a) au)
                    files w)))"

text \<open>
  The body of the \<open>try\<close> in \<open>performInstall\<close>: download, create the directory, write
  the main file, install the supporting files, record the installation. What was done
  before a \<open>throw\<close> stays done.
\<close>

definition downloadAndRecord ::
  "'fs host \<Rightarrow> artifactWithSource \<Rightarrow> string \<Rightarrow> authConfig option \<Rightarrow> 'fs world
     \<Rightarrow> (thrown + unit) \<times> 'fs world" where
  "downloadAndRecord h a targetPath au w =
     (let w1 = w\<lparr>requests := requests w @ [sourceUrl a]\<rparr> in
      case fetchText h (sourceUrl a) au of
        Inl e \<Rightarrow> (Inl e, w1)
      | Inr content \<Rightarrow>
          (case fsCreateDirectory h (fs w1) (pathDirname h targetPath) of
             Inl e \<Rightarrow> (Inl e, w1)
           | Inr f1 \<Rightarrow>
               (case fsWriteFile h f1 targetPath content of
                  Inl e \<Rightarrow> (Inl e, w1\<lparr>fs := f1\<rparr>)
                | Inr f2 \<Rightarrow>
                    (case installSupportingFiles h a au (w1\<lparr>fs := f2\<rparr>) of
                       (Inl e, w3) \<Rightarrow> (Inl e, w3)
                     | (Inr u, w3) \<Rightarrow>
                         (case recordInstallation (db w3) a targetPath (now h) of
                            Inl e \<Rightarrow> (Inl e, w3)
                          | Inr d \<Rightarrow> (Inr (), w3\<lparr>db := d\<rparr>))))))"

text \<open>
  \<open>repoConfig ? await this.authService.resolveAuth(repoConfig.id, repoConfig.auth) :
  undefined\<close>: the credentials of an install.
\<close>

definition resolvedAuth ::
  "'fs host \<Rightarrow> catalogRepoConfig option \<Rightarrow> thrown + authConfig option" where
  "resolvedAuth h repoConfig =
     (case repoConfig of
        None \<Rightarrow> Inr None
      | Some c \<Rightarrow> resolveAuth h (configId c) (auth c))"

text \<open>
  \<open>performInstall\<close> throws only what \<open>resolveAuth\<close> throws; everything after that is
  caught and turned into a failed result at the target path.
\<close>

definition performInstall ::
  "'fs host \<Rightarrow> artifactWithSource \<Rightarrow> string \<Rightarrow> catalogRepoConfig option \<Rightarrow> 'fs world
     \<Rightarrow> (thrown + installResult) \<times> 'fs world" where
  "performInstall h a targetPath repoConfig w =
     (case resolvedAuth h repoConfig of
        Inl e \<Rightarrow> (Inl e, w)
      | Inr au \<Rightarrow>
          (case downloadAndRecord h a targetPath au w of
             (Inl e, w') \<Rightarrow>
               (Inr \<lparr>success = False, resultArtifact = a, resultPath = targetPath,
                     error = Some (errorMessage e ''Unknown error during installation'')\<rparr>, w')
           | (Inr u, w') \<Rightarrow>
               (Inr \<lparr>success = True, resultArtifact = a, resultPath = targetPath,
                     error = None\<rparr>, w')))"

section \<open>Install\<close>

text \<open>
  What \<open>install\<close> decides before it writes anything: it throws, it returns a result
  at once, it installs the artifact alone under a new name, or it goes on to the
  dependencies and then to the artifact at the target path. None of these steps
  changes the state; \<open>None\<close> is the bound of the dependency resolution.
\<close>

datatype plan =
  Throws thrown
  | Returns installResult
  | InstallRenamed string
  | Proceed "artifactWithSource list" string

definition installPlan ::
  "nat \<Rightarrow> 'fs host \<Rightarrow> searchService \<Rightarrow> artifactWithSource \<Rightarrow> string \<Rightarrow> 'fs world \<Rightarrow> plan option"
  where
  "installPlan n h svc a installRoot w =
     (if getInstallation (installations (db w)) (catalogId a) (aid a) \<noteq> None
      then Some (Throws (JsError ''Artifact already installed. Use update instead.''))
      else
        case resolveDependencies n svc (installations (db w)) a of
          None \<Rightarrow> None
        | Some (Inl e) \<Rightarrow> Some (Throws e)
        | Some (Inr ds) \<Rightarrow>
            (case getInstallPath h a installRoot of
               Inl e \<Rightarrow> Some (Throws e)
             | Inr targetPath \<Rightarrow>
                 if checkConflict h (fs w) targetPath then
                   (case promptConflictResolution h (aname a) targetPath of
                      None \<Rightarrow>
                        Some (Returns \<lparr>success = False, resultArtifact = a,
                                resultPath = targetPath, error = Some ''Installation cancelled''\<rparr>)
                    | Some resolution \<Rightarrow>
                        if action resolution = Keep then
                          Some (Returns \<lparr>success = False, resultArtifact = a,
                                  resultPath = targetPath, error = Some ''Keeping existing file''\<rparr>)
                        else if action resolution = Rename then
                          (case newName resolution of
                             None \<Rightarrow> Some (Proceed ds targetPath)
                           | Some name \<Rightarrow>
                               if name = [] then Some (Proceed ds targetPath)
                               else
                                 Some (InstallRenamed
                                   (pathJoin h [pathDirname h targetPath,
                                                name @ pathExtname h targetPath])))
                        else Some (Proceed ds targetPath))
                 else Some (Proceed ds targetPath)))"

text \<open>The \<open>catch\<close> of \<open>install\<close>.\<close>

definition caught :: "artifactWithSource \<Rightarrow> thrown \<Rightarrow> installResult" where
  "caught a e =
     \<lparr>success = False, resultArtifact = a, resultPath = [],
      error = Some (errorMessage e ''Unknown error'')\<rparr>"

definition catching ::
  "artifactWithSource \<Rightarrow> (thrown + installResult) \<times> 'fs world \<Rightarrow> installResult \<times> 'fs world" where
  "catching a out = (case out of (Inl e, w) \<Rightarrow> (caught a e, w) | (Inr r, w) \<Rightarrow> (r, w))"

text \<open>
  \<open>install\<close> and its loop \<open>for (const dep of deps) await this.install(dep, ...)\<close>, whose
  results are dropped. The first argument bounds the depth of the recursion; \<open>None\<close>
  means that the bound was reached.
\<close>

fun install ::
  "nat \<Rightarrow> 'fs host \<Rightarrow> searchService \<Rightarrow> artifactWithSource \<Rightarrow> string \<Rightarrow> catalogRepoConfig option
     \<Rightarrow> 'fs world \<Rightarrow> (installResult \<times> 'fs world) option"
and installEach ::
  "nat \<Rightarrow> 'fs host \<Rightarrow> searchService \<Rightarrow> artifactWithSource list \<Rightarrow> string
     \<Rightarrow> catalogRepoConfig option \<Rightarrow> 'fs world \<Rightarrow> 'fs world option"
where
  "install 0 h svc a installRoot repoConfig w = None"
| "install (Suc n) h svc a installRoot repoConfig w =
     (case installPlan n h svc a installRoot w of
        None \<Rightarrow> None
      | Some (Throws e) \<Rightarrow> Some (caught a e, w)
      | Some (Returns r) \<Rightarrow> Some (r, w)
      | Some (InstallRenamed newPath) \<Rightarrow>
          Some (catching a (performInstall h a newPath repoConfig w))
      | Some (Proceed ds targetPath) \<Rightarrow>
          (case installEach n h svc ds installRoot repoConfig w of
             None \<Rightarrow> None
           | Some w' \<Rightarrow> Some (catching a (performInstall h a targetPath repoConfig w'))))"
| "installEach n h svc [] installRoot repoConfig w = Some w"
| "installEach n h svc (d # ds) installRoot repoConfig w =
     (case install n h svc d installRoot repoConfig w of
        None \<Rightarrow> None
      | Some (r, w') \<Rightarrow> installEach n h svc ds installRoot repoConfig w')"

text \<open>
  \<open>install\<close> reaches the call of \<open>performInstall\<close> for the artifact itself, at the path
  \<open>p\<close> and in the state \<open>w1\<close>: at once after a rename, or after the loop over the
  dependencies.
\<close>

definition reachesOwnInstall ::
  "nat \<Rightarrow> 'fs host \<Rightarrow> searchService \<Rightarrow> artifactWithSource \<Rightarrow> string \<Rightarrow> catalogRepoConfig option
     \<Rightarrow> 'fs world \<Rightarrow> string \<Rightarrow> 'fs world \<Rightarrow> bool" where
  "reachesOwnInstall n h svc a installRoot repoConfig w p w1 =
     (case installPlan n h svc a installRoot w of
        Some (InstallRenamed newPath) \<Rightarrow> p = newPath \<and> w1 = w
      | Some (Proceed ds targetPath) \<Rightarrow>
          p = targetPath \<and> installEach n h svc ds installRoot repoConfig w = Some w1
      | _ \<Rightarrow> False)"

text \<open>
  A set of artifacts has ranked dependencies when, whatever is installed, the
  resolution of the dependencies of each of them returns within the bound \<open>m\<close>, and
  every artifact that it returns is in the set and of a lower rank.
\<close>

definition rankedDependencies ::
  "searchService \<Rightarrow> artifactWithSource set \<Rightarrow> (artifactWithSource \<Rightarrow> nat) \<Rightarrow> nat \<Rightarrow> bool" where
  "rankedDependencies svc S rk m =
     (\<forall>x \<in> S. \<forall>rows. \<forall>k \<ge> m.
        \<exists>r. resolveDependencies k svc rows x = Some r \<and>
            (\<forall>ds. r = Inr ds \<longrightarrow> (\<forall>d \<in> set ds. d \<in> S \<and> rk d < rk x)))"

section \<open>The catalog service\<close>

text \<open>
  An issue of a \<open>ZodError\<close>: the path of the offending field and the message.
\<close>

record zodIssue =
  issuePath :: "string list"
  message :: string

text \<open>
  What the catalog service calls outside itself, as parameters: the authentication
  service, the HTTP client returning a document of some type \<open>'doc\<close>, the validation
  \<open>CatalogSchema.parse\<close> (the issues of the \<open>ZodError\<close> it throws, or the catalog), the
  URL parser behind the URL resolver, and the clock of the store.
\<close>

record 'doc catalogHost =
  resolveCatalogAuth :: "string \<Rightarrow> authConfig option \<Rightarrow> thrown + authConfig option"
  fetchJson :: "string \<Rightarrow> authConfig option \<Rightarrow> thrown + 'doc"
  parseCatalog :: "'doc \<Rightarrow> zodIssue list + catalog"
  pathnameOf :: "string \<Rightarrow> string option"
  clock :: nat

definition fetchCatalog :: "'doc catalogHost \<Rightarrow> string \<Rightarrow> authConfig option \<Rightarrow> thrown + catalog" where
  "fetchCatalog h u au =
     (case fetchJson h u au of
        Inl e \<Rightarrow> Inl e
      | Inr data \<Rightarrow>
          (case parseCatalog h data of
             Inl issues \<Rightarrow>
               Inl (JsError (''Invalid catalog format: '' @ joinWith '', '' (map message issues)))
           | Inr c \<Rightarrow> Inr c))"

subsection \<open>Statements of the store\<close>

text \<open>
  \<open>INSERT OR REPLACE INTO catalogs\<close>: the rows that share the id (the primary key) or
  the URL (unique) with the new row are deleted first, and with them, through the
  foreign keys \<open>ON DELETE CASCADE\<close>, the artifact rows and the installations of those
  catalogs.
\<close>

definition clashes :: "catalogRow \<Rightarrow> catalogRow \<Rightarrow> bool" where
  "clashes new r = (catId r = catId new \<or> catUrl r = catUrl new)"

definition insertOrReplaceCatalog :: "database \<Rightarrow> catalogRow \<Rightarrow> database" where
  "insertOrReplaceCatalog d new =
     (let gone = map catId (filter (clashes new) (catalogs d)) in
      d\<lparr>catalogs := filter (\<lambda>r. \<not> clashes new r) (catalogs d) @ [new],
        artifactRows := filter (\<lambda>r. artCatalogId r \<notin> set gone) (artifactRows d),
        installations := filter (\<lambda>i. catalog_id i \<notin> set gone) (installations d)\<rparr>)"

text \<open>
  \<open>INSERT INTO artifacts\<close>: the primary key is the pair of id and catalog, and the
  catalog has to exist.
\<close>

definition insertArtifact :: "database \<Rightarrow> artifactRow \<Rightarrow> thrown + database" where
  "insertArtifact d row =
     (if \<exists>r \<in> set (artifactRows d). artId r = artId row \<and> artCatalogId r = artCatalogId row
      then Inl (JsError ''UNIQUE constraint failed: artifacts.id, artifacts.catalog_id'')
      else if \<not> (\<exists>c \<in> set (catalogs d). catId c = artCatalogId row)
      then Inl (JsError ''FOREIGN KEY constraint failed'')
      else Inr (d\<lparr>artifactRows := artifactRows d @ [row]\<rparr>))"

text \<open>
  \<open>DELETE FROM artifacts WHERE catalog_id = ?\<close>: the installations of the deleted
  artifacts go with them (\<open>ON DELETE CASCADE\<close>).
\<close>

definition deleteArtifactsOf :: "string \<Rightarrow> database \<Rightarrow> database" where
  "deleteArtifactsOf c d =
     (let gone = filter (\<lambda>r. artCatalogId r = c) (artifactRows d) in
      d\<lparr>artifactRows := filter (\<lambda>r. artCatalogId r \<noteq> c) (artifactRows d),
        installations :=
          filter (\<lambda>i. \<not> (\<exists>r \<in> set gone. artId r = artifact_id i \<and> artCatalogId r = catalog_id i))
            (installations d)\<rparr>)"

text \<open>\<open>UPDATE catalogs SET ... WHERE id = ?\<close>\<close>

definition updateCatalog :: "string \<Rightarrow> (catalogRow \<Rightarrow> catalogRow) \<Rightarrow> database \<Rightarrow> database" where
  "updateCatalog c f d = d\<lparr>catalogs := map (\<lambda>r. if catId r = c then f r else r) (catalogs d)\<rparr>"

text \<open>
  Modelled from the spec: \<open>DatabaseService.transaction\<close>, which is not among the
  sources. The statements of the body run as one unit: when the body throws, the store
  is as it was before and the error goes on to the caller.
\<close>

definition transaction ::
  "(database \<Rightarrow> thrown + database) \<Rightarrow> database \<Rightarrow> (thrown + unit) \<times> database" where
  "transaction body d = (case body d of Inl e \<Rightarrow> (Inl e, d) | Inr d' \<Rightarrow> (Inr (), d'))"

subsection \<open>Operations\<close>

fun indexArtifacts ::
  "(string \<Rightarrow> string option) \<Rightarrow> database \<Rightarrow> string \<Rightarrow> catalogMetadata \<Rightarrow> artifact list
     \<Rightarrow> thrown + database" where
  "indexArtifacts pn d c meta [] = Inr d"
| "indexArtifacts pn d c meta (a # as) =
     (case insertArtifact d
             \<lparr>artId = aid a, artCatalogId = c, source_url = resolveArtifactUrl pn meta a,
              indexed = a\<rparr> of
        Inl e \<Rightarrow> Inl e
      | Inr d' \<Rightarrow> indexArtifacts pn d' c meta as)"

definition newCatalogRow :: "'doc catalogHost \<Rightarrow> catalogRepoConfig \<Rightarrow> catalog \<Rightarrow> catalogRow" where
  "newCatalogRow h config c =
     \<lparr>catId = configId config, catUrl = configUrl config, catEnabled = enabled config,
      catMetadata = metadata c, last_fetched = Some (clock h), status = ''healthy'',
      catError = None, created_at = clock h, updated_at = clock h\<rparr>"

definition addCatalog ::
  "'doc catalogHost \<Rightarrow> catalogRepoConfig \<Rightarrow> database \<Rightarrow> (thrown + unit) \<times> database" where
  "addCatalog h config d =
     (case resolveCatalogAuth h (configId config) (auth config) of
        Inl e \<Rightarrow> (Inl e, d)
      | Inr au \<Rightarrow>
          (case fetchCatalog h (configUrl config) au of
             Inl e \<Rightarrow> (Inl e, d)
           | Inr c \<Rightarrow>
               transaction
                 (\<lambda>d0. indexArtifacts (pathnameOf h)
                          (insertOrReplaceCatalog d0 (newCatalogRow h config c))
                          (configId config) (metadata c) (artifacts c))
                 d))"

text \<open>The body of the \<open>try\<close> in \<open>refreshCatalog\<close>, after the status was set.\<close>

definition refreshTry ::
  "'doc catalogHost \<Rightarrow> string \<Rightarrow> catalogRepoConfig \<Rightarrow> database \<Rightarrow> (thrown + unit) \<times> database"
  where
  "refreshTry h c config d =
     (case resolveCatalogAuth h (configId config) (auth config) of
        Inl e \<Rightarrow> (Inl e, d)
      | Inr au \<Rightarrow>
          (case fetchCatalog h (configUrl config) au of
             Inl e \<Rightarrow> (Inl e, d)
           | Inr cat \<Rightarrow>
               transaction
                 (\<lambda>d0. indexArtifacts (pathnameOf h)
                          (deleteArtifactsOf c
                             (updateCatalog c
                                (\<lambda>r. r\<lparr>catMetadata := metadata cat, status := ''healthy'',
                                        last_fetched := Some (clock h), catError := None,
                                        updated_at := clock h\<rparr>)
                                d0))
                          c (metadata cat) (artifacts cat))
                 d))"

definition refreshCatalog ::
  "'doc catalogHost \<Rightarrow> string \<Rightarrow> catalogRepoConfig \<Rightarrow> database \<Rightarrow> (thrown + unit) \<times> database"
  where
  "refreshCatalog h c config d =
     (case refreshTry h c config
             (updateCatalog c (\<lambda>r. r\<lparr>status := ''updating'', updated_at := clock h\<rparr>) d) of
        (Inl e, d') \<Rightarrow>
          (Inl e,
           updateCatalog c
             (\<lambda>r. r\<lparr>status := ''error'', catError := Some (errorMessage e ''Unknown error''),
                     updated_at := clock h\<rparr>)
             d')
      | (Inr u, d') \<Rightarrow> (Inr (), d'))"

text \<open>\<open>refreshAll\<close>: the enabled catalogs in turn; what one of them throws is logged.\<close>

fun refreshAll :: "'doc catalogHost \<Rightarrow> catalogRepoConfig list \<Rightarrow> database \<Rightarrow> database" where
  "refreshAll h [] d = d"
| "refreshAll h (config # configs) d =
     (if enabled config then refreshAll h configs (snd (refreshCatalog h (configId config) config d))
      else refreshAll h configs d)"

definition getCatalog :: "database \<Rightarrow> string \<Rightarrow> catalogRow option" where
  "getCatalog d c = find (\<lambda>r. catId r = c) (catalogs d)"

text \<open>
  The integrity that the foreign keys of the store maintain: every artifact row
  belongs to a stored catalog.
\<close>

definition artifactsHaveCatalogs :: "database \<Rightarrow> bool" where
  "artifactsHaveCatalogs d =
     (\<forall>r \<in> set (artifactRows d). \<exists>c \<in> set (catalogs d). catId c = artCatalogId r)"

section \<open>Sample catalogs\<close>

text \<open>
  Small catalogs on which the properties below are evaluated. All artifacts belong to
  the catalog \<open>c\<close>; \<open>byId\<close> is a \<open>getArtifact\<close> that reads a table of artifacts.
\<close>

definition sampleArtifact :: "string \<Rightarrow> string list \<Rightarrow> artifactWithSource" where
  "sampleArtifact i ds =
     \<lparr>aid = i, atype = ''prompt'', aname = i, path = ''prompts/'' @ i @ ''.md'',
      version = ''1.0.0'', dependencies = ds, supportingFiles = None,
      catalogId = ''c'', sourceUrl = ''https://x.dev/prompts/'' @ i @ ''.md''\<rparr>"

definition byId :: "artifactWithSource list \<Rightarrow> string \<Rightarrow> string \<Rightarrow> artifactWithSource option" where
  "byId arts c i = find (\<lambda>x. catalogId x = c \<and> aid x = i) arts"

text \<open>The cycle \<open>a \<rightarrow> b \<rightarrow> a\<close>, both artifacts found by id.\<close>

definition cycleService :: searchService where
  "cycleService =
     \<lparr>getArtifact = byId [sampleArtifact ''a'' [''b''], sampleArtifact ''b'' [''a'']],
      searchTop = (\<lambda>q. None)\<rparr>"

text \<open>
  The same cycle, where \<open>a\<close> also names its dependency by the word \<open>bee\<close>: no artifact
  has that id, and the search returns \<open>b\<close> for it.
\<close>

definition aliasService :: searchService where
  "aliasService =
     \<lparr>getArtifact = byId [sampleArtifact ''a'' [''b'', ''bee''], sampleArtifact ''b'' [''a'']],
      searchTop = (\<lambda>q. if q = ''bee'' then Some (sampleArtifact ''b'' [''a'']) else None)\<rparr>"

text \<open>An artifact \<open>b\<close> without dependencies that the search also returns for \<open>bee\<close>.\<close>

definition mirrorService :: searchService where
  "mirrorService =
     \<lparr>getArtifact = byId [sampleArtifact ''b'' []],
      searchTop = (\<lambda>q. if q = ''bee'' then Some (sampleArtifact ''b'' []) else None)\<rparr>"

text \<open>The chain \<open>t \<rightarrow> b \<rightarrow> c \<rightarrow> d\<close>, where \<open>d\<close> is installed.\<close>

definition chainService :: searchService where
  "chainService =
     \<lparr>getArtifact = byId [sampleArtifact ''t'' [''b''], sampleArtifact ''b'' [''c''],
                          sampleArtifact ''c'' [''d''], sampleArtifact ''d'' []],
      searchTop = (\<lambda>q. None)\<rparr>"

definition installedRows :: "string \<Rightarrow> installationRow list" where
  "installedRows i =
     [\<lparr>rowId = 1, artifact_id = i, catalog_id = ''c'', installedVersion = ''1.0.0'',
       installed_path = ''/w/.github/prompts/'' @ i @ ''.prompt.md'', installed_at = 0,
       last_used = None\<rparr>]"

definition chainRows :: "installationRow list" where
  "chainRows = installedRows ''d''"

definition chainRank :: "string \<Rightarrow> nat" where
  "chainRank d = (if d = ''t'' then 3 else if d = ''b'' then 2 else if d = ''c'' then 1 else 0)"

text \<open>
  Two artifacts of another catalog: \<open>m\<close>, which the search returns for its name, and
  \<open>k\<close>, named \<open>Kit\<close>, on which \<open>m\<close> depends. The artifact \<open>t\<close> of the catalog \<open>c\<close>
  depends on \<open>m\<close>.
\<close>

definition foreignArtifact :: "string \<Rightarrow> string \<Rightarrow> string list \<Rightarrow> artifactWithSource" where
  "foreignArtifact i n ds = (sampleArtifact i ds)\<lparr>aname := n, catalogId := ''other''\<rparr>"

definition foreignService :: searchService where
  "foreignService =
     \<lparr>getArtifact = byId [sampleArtifact ''t'' [''m''], foreignArtifact ''m'' ''m'' [''k''],
                          foreignArtifact ''k'' ''Kit'' []],
      searchTop = (\<lambda>q. if q = ''m'' then Some (foreignArtifact ''m'' ''m'' [''k'']) else None)\<rparr>"

section \<open>A sample workspace\<close>

text \<open>
  A host whose file system is a list of paths with their contents. Its \<open>path\<close> module
  works on paths with forward slashes; every request succeeds except the one named in
  \<open>failing\<close>; the dialogs answer \<open>answer\<close> and \<open>a-2\<close>.
\<close>

definition sampleBasename :: "string \<Rightarrow> string" where
  "sampleBasename p = rev (takeWhile (\<lambda>c. c \<noteq> CHR ''/'') (rev p))"

definition sampleExtname :: "string \<Rightarrow> string" where
  "sampleExtname p =
     (let b = sampleBasename p in
      if CHR ''.'' \<in> set b then CHR ''.'' # rev (takeWhile (\<lambda>c. c \<noteq> CHR ''.'') (rev b)) else [])"

definition sampleHost :: "string option \<Rightarrow> string \<Rightarrow> (string \<times> string) list host" where
  "sampleHost answer failing =
     \<lparr>workspaceFolder = Some ''/w'',
      artifactPaths = (\<lambda>t. t @ ''s''),
      artifactExtensions = (\<lambda>t. ''.'' @ t @ ''.md''),
      pathJoin = joinWith ''/'',
      pathDirname = beforeLastSlash,
      pathExtname = sampleExtname,
      pathBasename = sampleBasename,
      fsStat = (\<lambda>f p. map_of f p \<noteq> None),
      fsCreateDirectory = (\<lambda>f d. Inr f),
      fsWriteFile = (\<lambda>f p c. Inr ((p, c) # filter (\<lambda>e. fst e \<noteq> p) f)),
      fetchText = (\<lambda>u au. if u = failing then Inl (JsError ''HTTP 404'') else Inr (''text of '' @ u)),
      resolveAuth = (\<lambda>i au. Inr au),
      showWarningMessage = (\<lambda>m. answer),
      showInputBox = (\<lambda>v. Some ''a-2''),
      now = 7\<rparr>"

text \<open>The artifact \<open>a\<close> depends on \<open>b\<close>; both are indexed, none is installed.\<close>

definition pairService :: searchService where
  "pairService =
     \<lparr>getArtifact = byId [sampleArtifact ''a'' [''b''], sampleArtifact ''b'' []],
      searchTop = (\<lambda>q. None)\<rparr>"

definition sampleRow :: "string \<Rightarrow> artifactRow" where
  "sampleRow i =
     \<lparr>artId = i, artCatalogId = ''c'', source_url = ''https://x.dev/prompts/'' @ i @ ''.md'',
      indexed = \<lparr>aid = i, atype = ''prompt'', aname = i, path = ''prompts/'' @ i @ ''.md'',
                 version = ''1.0.0'', dependencies = [], supportingFiles = None\<rparr>\<rparr>"

definition sampleCatalogRow :: catalogRow where
  "sampleCatalogRow =
     \<lparr>catId = ''c'', catUrl = ''https://x.dev/catalog.json'', catEnabled = True,
      catMetadata = \<lparr>cid = ''c'', cname = ''C'',
                     repo = \<lparr>rtype = ''generic'', url = ''https://x.dev'', branch = None\<rparr>\<rparr>,
      last_fetched = Some 1, status = ''healthy'', catError = None,
      created_at = 1, updated_at = 1\<rparr>"

definition sampleDb :: database where
  "sampleDb =
     \<lparr>catalogs = [sampleCatalogRow], artifactRows = [sampleRow ''a'', sampleRow ''b''],
      installations = [], lastInstallationId = 0\<rparr>"

definition sampleWorld :: "(string \<times> string) list \<Rightarrow> (string \<times> string) list world" where
  "sampleWorld files = \<lparr>fs = files, db = sampleDb, requests = []\<rparr>"

section \<open>Sample manifests\<close>

text \<open>
  A catalog host whose document is a text. The text \<open>good\<close> validates to a catalog
  named \<open>New\<close> without artifacts; any other text lacks the fields \<open>version\<close> and
  \<open>artifacts\<close>, for each of which the validation reports \<open>Required\<close>.
\<close>

definition sampleManifest :: catalog where
  "sampleManifest =
     \<lparr>metadata = \<lparr>cid = ''c'', cname = ''New'',
                  repo = \<lparr>rtype = ''generic'', url = ''https://x.dev'', branch = None\<rparr>\<rparr>,
      artifacts = []\<rparr>"

definition sampleCatalogHost :: "string \<Rightarrow> string catalogHost" where
  "sampleCatalogHost doc =
     \<lparr>resolveCatalogAuth = (\<lambda>i au. Inr au),
      fetchJson = (\<lambda>u au. Inr doc),
      parseCatalog =
        (\<lambda>data. if data = ''good'' then Inr sampleManifest
                 else Inl [\<lparr>issuePath = [''version''], message = ''Required''\<rparr>,
                           \<lparr>issuePath = [''artifacts''], message = ''Required''\<rparr>]),
      pathnameOf = urlPathname,
      clock = 9\<rparr>"

definition sampleConfig :: catalogRepoConfig where
  "sampleConfig =
     \<lparr>configId = ''c'', configUrl = ''https://x.dev/catalog.json'', enabled = True, auth = None\<rparr>"

definition installedDb :: database where
  "installedDb =
     sampleDb\<lparr>installations :=
                [\<lparr>rowId = 1, artifact_id = ''a'', catalog_id = ''c'', installedVersion = ''1.0.0'',
                  installed_path = ''/w/.github/prompts/a.prompt.md'', installed_at = 7,
                  last_used = None\<rparr>],
              lastInstallationId := 1\<rparr>"

section \<open>Properties of the URL resolver\<close>


















section \<open>Properties of the dependency resolver\<close>

lemma resolve_Suc_cases:
  assumes "resolve (Suc n) svc rows cat d st = Some (Inr st')"
  obtains (seen) "d \<in> visited st" and "st' = st"
  | (installed) dep where "d \<notin> visited st" and "findDependency svc cat d = Some dep"
      and "getInstallation rows (catalogId dep) (aid dep) \<noteq> None"
      and "st' = st\<lparr>visited := insert d (visited st)\<rparr>"
  | (pushed) dep st2 where "d \<notin> visited st" and "findDependency svc cat d = Some dep"
      and "getInstallation rows (catalogId dep) (aid dep) = None"
      and "resolveEach n svc rows cat (dependencies dep) (st\<lparr>visited := insert d (visited st)\<rparr>)
             = Some (Inr st2)"
      and "st' = st2\<lparr>deps := deps st2 @ [dep]\<rparr>"
  using assms
  by (auto simp: Let_def split: if_splits option.splits sum.splits)

lemma resolveEach_Cons_cases:
  assumes "resolveEach n svc rows cat (d # ds) st = Some (Inr st')"
  obtains st1 where "resolve n svc rows cat d st = Some (Inr st1)"
    and "resolveEach n svc rows cat ds st1 = Some (Inr st')"
  using assms by (auto split: option.splits sum.splits)

lemma fresh_mono:
  "fresh svc rows cat V V' x \<Longrightarrow> V0 \<subseteq> V \<Longrightarrow> V' \<subseteq> V'' \<Longrightarrow> fresh svc rows cat V0 V'' x"
  unfolding fresh_def by blast

lemma extendsBy_refl: "extendsBy svc rows cat st st"
  by (simp add: extendsBy_def)

lemma extendsBy_trans:
  assumes "extendsBy svc rows cat st st1" and "extendsBy svc rows cat st1 st2"
  shows "extendsBy svc rows cat st st2"
proof -
  from assms(1) obtain new1 where a: "visited st \<subseteq> visited st1" "deps st1 = deps st @ new1"
    "\<forall>x \<in> set new1. fresh svc rows cat (visited st) (visited st1) x"
    unfolding extendsBy_def by blast
  from assms(2) obtain new2 where b: "visited st1 \<subseteq> visited st2" "deps st2 = deps st1 @ new2"
    "\<forall>x \<in> set new2. fresh svc rows cat (visited st1) (visited st2) x"
    unfolding extendsBy_def by blast
  have "deps st2 = deps st @ (new1 @ new2)" using a(2) b(2) by simp
  moreover have "\<forall>x \<in> set (new1 @ new2). fresh svc rows cat (visited st) (visited st2) x"
    using a(1,3) b(1,3) by (auto intro: fresh_mono)
  moreover have "visited st \<subseteq> visited st2" using a(1) b(1) by blast
  ultimately show ?thesis unfolding extendsBy_def by blast
qed

lemma extendsBy_visit: "extendsBy svc rows cat st (st\<lparr>visited := insert d (visited st)\<rparr>)"
  by (auto simp: extendsBy_def)

lemma resolve_grows:
  shows "resolve n svc rows cat d st = Some (Inr st') \<Longrightarrow>
           extendsBy svc rows cat st st' \<and> d \<in> visited st'"
    and "resolveEach n svc rows cat ds st = Some (Inr st') \<Longrightarrow>
           extendsBy svc rows cat st st' \<and> set ds \<subseteq> visited st'"
proof (induction n svc rows cat d st and n svc rows cat ds st arbitrary: st' and st'
    rule: resolve_resolveEach.induct)
  case (1 svc rows cat depId st)
  then show ?case by simp
next
  case (2 n svc rows cat depId st)
  from "2.prems" show ?case
  proof (cases rule: resolve_Suc_cases)
    case seen
    then show ?thesis by (simp add: extendsBy_refl)
  next
    case (installed dep)
    then show ?thesis by (simp add: extendsBy_visit)
  next
    case (pushed dep st2)
    let ?st1 = "st\<lparr>visited := insert depId (visited st)\<rparr>"
    from "2.IH"[OF pushed(1) refl pushed(2) _ pushed(4)] pushed(3)
    have e: "extendsBy svc rows cat ?st1 st2" and s: "set (dependencies dep) \<subseteq> visited st2"
      by simp_all
    from e obtain new where v: "insert depId (visited st) \<subseteq> visited st2"
      and n1: "deps st2 = deps st @ new"
      and n2: "\<forall>x \<in> set new. fresh svc rows cat (insert depId (visited st)) (visited st2) x"
      unfolding extendsBy_def by auto
    have d: "depId \<in> visited st2 - visited st" using v pushed(1) by auto
    have "fresh svc rows cat (visited st) (visited st2) dep"
      using d pushed(2,3) s unfolding fresh_def by blast
    moreover have "\<forall>x \<in> set new. fresh svc rows cat (visited st) (visited st2) x"
      using n2 by (auto intro: fresh_mono)
    ultimately have "\<forall>x \<in> set (new @ [dep]). fresh svc rows cat (visited st) (visited st') x"
      using pushed(5) by auto
    moreover have "deps st' = deps st @ (new @ [dep])" using n1 pushed(5) by simp
    moreover have "visited st \<subseteq> visited st'" using v pushed(5) by auto
    ultimately have "extendsBy svc rows cat st st'" unfolding extendsBy_def by blast
    then show ?thesis using d pushed(5) by simp
  qed
next
  case (3 n svc rows cat st)
  then show ?case by (simp add: extendsBy_refl)
next
  case (4 n svc rows cat d ds st)
  from "4.prems" obtain st1 where
    r1: "resolve n svc rows cat d st = Some (Inr st1)"
    and r2: "resolveEach n svc rows cat ds st1 = Some (Inr st')"
    by (rule resolveEach_Cons_cases)
  from "4.IH"(1)[OF r1] have a: "extendsBy svc rows cat st st1" "d \<in> visited st1" by simp_all
  from "4.IH"(2)[OF r1 refl r2] have b: "extendsBy svc rows cat st1 st'" "set ds \<subseteq> visited st'"
    by simp_all
  have "visited st1 \<subseteq> visited st'" using b(1) by (simp add: extendsBy_def)
  then show ?case using extendsBy_trans[OF a(1) b(1)] a(2) b(2) by auto
qed

lemma nextIds_pushed:
  assumes "findDependency svc cat d = Some dep"
    and "getInstallation rows (catalogId dep) (aid dep) = None"
  shows "nextIds svc rows cat d = set (dependencies dep)"
    and "toInstall svc rows cat d = Some dep"
  using assms by (simp_all add: nextIds_def toInstall_def)

lemma resolve_error:
  assumes "\<forall>t \<in> U. nextIds svc rows cat t \<subseteq> U"
  shows "resolve n svc rows cat d st = Some (Inl e) \<Longrightarrow> d \<in> U \<Longrightarrow>
           \<exists>t \<in> U. e = JsError (''Dependency not found: '' @ t) \<and> findDependency svc cat t = None"
    and "resolveEach n svc rows cat ds st = Some (Inl e) \<Longrightarrow> set ds \<subseteq> U \<Longrightarrow>
           \<exists>t \<in> U. e = JsError (''Dependency not found: '' @ t) \<and> findDependency svc cat t = None"
  using assms
proof (induction n svc rows cat d st and n svc rows cat ds st arbitrary: e and e
    rule: resolve_resolveEach.induct)
  case (1 svc rows cat depId st)
  then show ?case by simp
next
  case (2 n svc rows cat depId st)
  show ?case
  proof (cases "findDependency svc cat depId")
    case None
    with "2.prems"(1) have "e = JsError (''Dependency not found: '' @ depId)"
      by (auto simp: Let_def split: if_splits)
    with None "2.prems"(2) show ?thesis by blast
  next
    case (Some dep)
    with "2.prems"(1) have nv: "depId \<notin> visited st"
      and ni: "\<not> getInstallation rows (catalogId dep) (aid dep) \<noteq> None"
      and r: "resolveEach n svc rows cat (dependencies dep)
                (st\<lparr>visited := insert depId (visited st)\<rparr>) = Some (Inl e)"
      by (auto simp: Let_def split: if_splits option.splits sum.splits)
    from ni have "nextIds svc rows cat depId = set (dependencies dep)"
      using Some by (simp add: nextIds_pushed)
    then have sub: "set (dependencies dep) \<subseteq> U" using "2.prems"(2,3) by blast
    from "2.IH"[OF nv refl Some ni r sub "2.prems"(3)] show ?thesis .
  qed
next
  case (3 n svc rows cat st)
  then show ?case by simp
next
  case (4 n svc rows cat d ds st)
  from "4.prems"(2) have dU: "d \<in> U" and dsU: "set ds \<subseteq> U" by auto
  from "4.prems"(1) consider "resolve n svc rows cat d st = Some (Inl e)"
    | st1 where "resolve n svc rows cat d st = Some (Inr st1)"
        "resolveEach n svc rows cat ds st1 = Some (Inl e)"
    by (auto split: option.splits sum.splits)
  then show ?case
  proof cases
    case 1
    from "4.IH"(1)[OF 1 dU "4.prems"(3)] show ?thesis .
  next
    case 2
    from "4.IH"(2)[OF 2(1) refl 2(2) dsU "4.prems"(3)] show ?thesis .
  qed
qed

lemma resolve_visited_in:
  assumes "\<forall>t \<in> U. nextIds svc rows cat t \<subseteq> U"
  shows "resolve n svc rows cat d st = Some (Inr st') \<Longrightarrow> d \<in> U \<Longrightarrow> visited st \<subseteq> U \<Longrightarrow>
           visited st' \<subseteq> U"
    and "resolveEach n svc rows cat ds st = Some (Inr st') \<Longrightarrow> set ds \<subseteq> U \<Longrightarrow>
           visited st \<subseteq> U \<Longrightarrow> visited st' \<subseteq> U"
  using assms
proof (induction n svc rows cat d st and n svc rows cat ds st arbitrary: st' and st'
    rule: resolve_resolveEach.induct)
  case (1 svc rows cat depId st)
  then show ?case by simp
next
  case (2 n svc rows cat depId st)
  from "2.prems"(1) show ?case
  proof (cases rule: resolve_Suc_cases)
    case seen
    then show ?thesis using "2.prems"(3) by simp
  next
    case (installed dep)
    then show ?thesis using "2.prems"(2,3) by simp
  next
    case (pushed dep st2)
    let ?st1 = "st\<lparr>visited := insert depId (visited st)\<rparr>"
    have "nextIds svc rows cat depId = set (dependencies dep)"
      using pushed(2,3) by (rule nextIds_pushed)
    then have sub: "set (dependencies dep) \<subseteq> U" using "2.prems"(2,4) by blast
    have v1: "visited ?st1 \<subseteq> U" using "2.prems"(2,3) by simp
    from "2.IH"[OF pushed(1) refl pushed(2) _ pushed(4) sub v1 "2.prems"(4)] pushed(3)
    have "visited st2 \<subseteq> U" by simp
    then show ?thesis using pushed(5) by simp
  qed
next
  case (3 n svc rows cat st)
  then show ?case by simp
next
  case (4 n svc rows cat d ds st)
  from "4.prems"(2) have dU: "d \<in> U" and dsU: "set ds \<subseteq> U" by auto
  from "4.prems"(1) obtain st1 where
    r1: "resolve n svc rows cat d st = Some (Inr st1)"
    and r2: "resolveEach n svc rows cat ds st1 = Some (Inr st')"
    by (rule resolveEach_Cons_cases)
  from "4.IH"(1)[OF r1 dU "4.prems"(3,4)] have "visited st1 \<subseteq> U" .
  from "4.IH"(2)[OF r1 refl r2 dsU this "4.prems"(4)] show ?case .
qed

lemma resolve_enough_fuel:
  assumes "finite U" and "\<forall>t \<in> U. nextIds svc rows cat t \<subseteq> U"
  shows "d \<in> U \<Longrightarrow> card (U - visited st) < n \<Longrightarrow> resolve n svc rows cat d st \<noteq> None"
    and "set ds \<subseteq> U \<Longrightarrow> card (U - visited st) < n \<Longrightarrow> resolveEach n svc rows cat ds st \<noteq> None"
  using assms
proof (induction n svc rows cat d st and n svc rows cat ds st
    rule: resolve_resolveEach.induct)
  case (1 svc rows cat depId st)
  then show ?case by simp
next
  case (2 n svc rows cat depId st)
  show ?case
  proof (cases "depId \<in> visited st")
    case True
    then show ?thesis by simp
  next
    case nv: False
    let ?st1 = "st\<lparr>visited := insert depId (visited st)\<rparr>"
    show ?thesis
    proof (cases "findDependency svc cat depId")
      case None
      with nv show ?thesis by (simp add: Let_def)
    next
      case (Some dep)
      show ?thesis
      proof (cases "getInstallation rows (catalogId dep) (aid dep) \<noteq> None")
        case True
        with nv Some show ?thesis by (simp add: Let_def)
      next
        case ni: False
        have "nextIds svc rows cat depId = set (dependencies dep)"
          using Some ni by (simp add: nextIds_def)
        then have sub: "set (dependencies dep) \<subseteq> U"
          using "2.prems"(1,4) by blast
        have "depId \<in> U - visited st" using "2.prems"(1) nv by simp
        then have "card (U - insert depId (visited st)) < card (U - visited st)"
          using "2.prems"(3)
          by (metis Diff_insert card_Diff1_less finite_Diff)
        then have c: "card (U - visited ?st1) < n" using "2.prems"(2) by simp
        from "2.IH"[OF nv refl Some ni sub c "2.prems"(3,4)]
        show ?thesis using nv Some ni
          by (auto simp: Let_def split: option.splits sum.splits)
      qed
    qed
  qed
next
  case (3 n svc rows cat st)
  then show ?case by simp
next
  case (4 n svc rows cat d ds st)
  from "4.prems" have dU: "d \<in> U" and dsU: "set ds \<subseteq> U" by auto
  from "4.IH"(1)[OF dU "4.prems"(2,3,4)] obtain r where r: "resolve n svc rows cat d st = Some r"
    by auto
  show ?case
  proof (cases r)
    case (Inl e)
    with r show ?thesis by simp
  next
    case (Inr st1)
    with r have r1: "resolve n svc rows cat d st = Some (Inr st1)" by simp
    from resolve_grows(1)[OF r1] have "visited st \<subseteq> visited st1" by (simp add: extendsBy_def)
    then have "U - visited st1 \<subseteq> U - visited st" by auto
    then have "card (U - visited st1) \<le> card (U - visited st)"
      using "4.prems"(3) by (simp add: card_mono)
    then have c: "card (U - visited st1) < n" using "4.prems"(2) by simp
    from "4.IH"(2)[OF r1 refl dsU c "4.prems"(3,4)] show ?thesis using r1 by simp
  qed
qed

lemma resolve_more_fuel:
  shows "resolve n svc rows cat d st = Some r \<Longrightarrow> resolve (Suc n) svc rows cat d st = Some r"
    and "resolveEach n svc rows cat ds st = Some r \<Longrightarrow> resolveEach (Suc n) svc rows cat ds st = Some r"
proof (induction n svc rows cat d st and n svc rows cat ds st arbitrary: r and r
    rule: resolve_resolveEach.induct)
  case (1 svc rows cat depId st)
  then show ?case by simp
next
  case (2 n svc rows cat depId st)
  show ?case
  proof (cases "depId \<in> visited st")
    case True
    with "2.prems" show ?thesis by simp
  next
    case nv: False
    show ?thesis
    proof (cases "findDependency svc cat depId")
      case None
      with nv "2.prems" show ?thesis by (simp add: Let_def)
    next
      case (Some dep)
      show ?thesis
      proof (cases "getInstallation rows (catalogId dep) (aid dep) \<noteq> None")
        case True
        with nv Some "2.prems" show ?thesis by (simp add: Let_def)
      next
        case ni: False
        let ?st1 = "st\<lparr>visited := insert depId (visited st)\<rparr>"
        from "2.prems" nv Some ni obtain r' where
          r': "resolveEach n svc rows cat (dependencies dep) ?st1 = Some r'"
          by (auto simp: Let_def split: option.splits)
        from "2.IH"[OF nv refl Some ni r']
        have "resolveEach (Suc n) svc rows cat (dependencies dep) ?st1 = Some r'" .
        with r' "2.prems" nv Some ni show ?thesis
          by (simp add: Let_def del: resolveEach.simps(2))
      qed
    qed
  qed
next
  case (3 n svc rows cat st)
  then show ?case by simp
next
  case (4 n svc rows cat d ds st)
  from "4.prems" obtain x where x: "resolve n svc rows cat d st = Some x"
    by (auto split: option.splits)
  from "4.IH"(1)[OF x] have x': "resolve (Suc n) svc rows cat d st = Some x" .
  show ?case
  proof (cases x)
    case (Inl e)
    with x "4.prems" have "r = Inl e" by simp
    with x' Inl show ?thesis by (simp del: resolve.simps(2))
  next
    case (Inr st1)
    with x "4.prems" have "resolveEach n svc rows cat ds st1 = Some r" by simp
    from "4.IH"(2)[OF x Inr this] show ?thesis using x' Inr by (simp del: resolve.simps(2))
  qed
qed

lemma settled_mono:
  "settled svc rows cat xs t \<Longrightarrow> set xs \<subseteq> set ys \<Longrightarrow> settled svc rows cat ys t"
  by (auto simp: settled_def split: option.splits)

lemma extendsBy_settled:
  "extendsBy svc rows cat st st' \<Longrightarrow> settled svc rows cat (deps st) t \<Longrightarrow>
   settled svc rows cat (deps st') t"
  by (rule settled_mono) (auto simp: extendsBy_def)

lemma resolve_settles:
  shows "resolve n svc rows cat d st = Some (Inr st') \<Longrightarrow>
           \<forall>t \<in> visited st' - visited st. settled svc rows cat (deps st') t"
    and "resolveEach n svc rows cat ds st = Some (Inr st') \<Longrightarrow>
           \<forall>t \<in> visited st' - visited st. settled svc rows cat (deps st') t"
proof (induction n svc rows cat d st and n svc rows cat ds st arbitrary: st' and st'
    rule: resolve_resolveEach.induct)
  case (1 svc rows cat depId st)
  then show ?case by simp
next
  case (2 n svc rows cat depId st)
  from "2.prems" show ?case
  proof (cases rule: resolve_Suc_cases)
    case seen
    then show ?thesis by simp
  next
    case (installed dep)
    then show ?thesis by (auto simp: settled_def)
  next
    case (pushed dep st2)
    let ?st1 = "st\<lparr>visited := insert depId (visited st)\<rparr>"
    from "2.IH"[OF pushed(1) refl pushed(2) _ pushed(4)] pushed(3)
    have ih: "\<forall>t \<in> visited st2 - insert depId (visited st). settled svc rows cat (deps st2) t"
      by simp
    show ?thesis
    proof
      fix t assume t: "t \<in> visited st' - visited st"
      show "settled svc rows cat (deps st') t"
      proof (cases "t = depId")
        case True
        then show ?thesis using pushed(2,5) by (simp add: settled_def)
      next
        case False
        with t pushed(5) ih have "settled svc rows cat (deps st2) t" by simp
        then show ?thesis using pushed(5) by (auto intro: settled_mono)
      qed
    qed
  qed
next
  case (3 n svc rows cat st)
  then show ?case by simp
next
  case (4 n svc rows cat d ds st)
  from "4.prems" obtain st1 where
    r1: "resolve n svc rows cat d st = Some (Inr st1)"
    and r2: "resolveEach n svc rows cat ds st1 = Some (Inr st')"
    by (rule resolveEach_Cons_cases)
  note a = "4.IH"(1)[OF r1] and b = "4.IH"(2)[OF r1 refl r2]
  from resolve_grows(2)[OF r2] have e: "extendsBy svc rows cat st1 st'" by simp
  show ?case
  proof
    fix t assume t: "t \<in> visited st' - visited st"
    show "settled svc rows cat (deps st') t"
    proof (cases "t \<in> visited st1")
      case True
      with t a have "settled svc rows cat (deps st1) t" by simp
      then show ?thesis using e by (rule extendsBy_settled[rotated])
    next
      case False
      with t b show ?thesis by simp
    qed
  qed
qed


lemma pushedFor_refl: "pushedFor svc rows cat st st []"
  by (simp add: pushedFor_def)

lemma pushedFor_trans:
  assumes "pushedFor svc rows cat st st1 ids1" and "pushedFor svc rows cat st1 st2 ids2"
    and "visited st \<subseteq> visited st1" and "visited st1 \<subseteq> visited st2"
  shows "pushedFor svc rows cat st st2 (ids1 @ ids2)"
proof -
  let ?f = "\<lambda>t. the (toInstall svc rows cat t)"
  from assms(1) have a: "deps st1 = deps st @ map ?f ids1" "distinct ids1"
    "set ids1 = {t \<in> visited st1 - visited st. toInstall svc rows cat t \<noteq> None}"
    by (simp_all add: pushedFor_def)
  from assms(2) have b: "deps st2 = deps st1 @ map ?f ids2" "distinct ids2"
    "set ids2 = {t \<in> visited st2 - visited st1. toInstall svc rows cat t \<noteq> None}"
    by (simp_all add: pushedFor_def)
  have 1: "deps st2 = deps st @ map ?f (ids1 @ ids2)" using a(1) b(1) by simp
  have "set ids1 \<inter> set ids2 = {}" using a(3) b(3) by auto
  then have 2: "distinct (ids1 @ ids2)" using a(2) b(2) by simp
  have 3: "set (ids1 @ ids2) = {t \<in> visited st2 - visited st. toInstall svc rows cat t \<noteq> None}"
    using a(3) b(3) assms(3,4) by auto
  from 1 2 3 show ?thesis unfolding pushedFor_def by blast
qed

lemma resolve_pushed:
  shows "resolve n svc rows cat d st = Some (Inr st') \<Longrightarrow> \<exists>ids. pushedFor svc rows cat st st' ids"
    and "resolveEach n svc rows cat ds st = Some (Inr st') \<Longrightarrow>
           \<exists>ids. pushedFor svc rows cat st st' ids"
proof (induction n svc rows cat d st and n svc rows cat ds st arbitrary: st' and st'
    rule: resolve_resolveEach.induct)
  case (1 svc rows cat depId st)
  then show ?case by simp
next
  case (2 n svc rows cat depId st)
  from "2.prems" show ?case
  proof (cases rule: resolve_Suc_cases)
    case seen
    then show ?thesis using pushedFor_refl[of svc rows cat st] by blast
  next
    case (installed dep)
    have "toInstall svc rows cat depId = None" using installed(2,3) by (simp add: toInstall_def)
    then have "pushedFor svc rows cat st st' []"
      using installed(4) by (auto simp: pushedFor_def)
    then show ?thesis by blast
  next
    case (pushed dep st2)
    let ?st1 = "st\<lparr>visited := insert depId (visited st)\<rparr>"
    let ?f = "\<lambda>t. the (toInstall svc rows cat t)"
    from "2.IH"[OF pushed(1) refl pushed(2) _ pushed(4)] pushed(3)
    obtain ids where "pushedFor svc rows cat ?st1 st2 ids" by auto
    then have a: "deps st2 = deps st @ map ?f ids" "distinct ids"
      "set ids = {t \<in> visited st2 - insert depId (visited st). toInstall svc rows cat t \<noteq> None}"
      by (simp_all add: pushedFor_def)
    have t: "toInstall svc rows cat depId = Some dep" using pushed(2,3) by (rule nextIds_pushed)
    from resolve_grows(2)[OF pushed(4)] have v: "depId \<in> visited st2"
      by (auto simp: extendsBy_def)
    have 1: "deps st' = deps st @ map ?f (ids @ [depId])" using a(1) t pushed(5) by simp
    have "depId \<notin> set ids" using a(3) by simp
    then have 2: "distinct (ids @ [depId])" using a(2) by simp
    have 3: "set (ids @ [depId])
               = {t \<in> visited st' - visited st. toInstall svc rows cat t \<noteq> None}"
      using a(3) t v pushed(1,5) by auto
    from 1 2 3 have "pushedFor svc rows cat st st' (ids @ [depId])"
      unfolding pushedFor_def by blast
    then show ?thesis by blast
  qed
next
  case (3 n svc rows cat st)
  then have "st' = st" by simp
  then show ?case using pushedFor_refl[of svc rows cat st] by blast
next
  case (4 n svc rows cat d ds st)
  from "4.prems" obtain st1 where
    r1: "resolve n svc rows cat d st = Some (Inr st1)"
    and r2: "resolveEach n svc rows cat ds st1 = Some (Inr st')"
    by (rule resolveEach_Cons_cases)
  from "4.IH"(1)[OF r1] obtain ids1 where a: "pushedFor svc rows cat st st1 ids1" by blast
  from "4.IH"(2)[OF r1 refl r2] obtain ids2 where b: "pushedFor svc rows cat st1 st' ids2" by blast
  from resolve_grows(1)[OF r1] have v1: "visited st \<subseteq> visited st1" by (simp add: extendsBy_def)
  from resolve_grows(2)[OF r2] have v2: "visited st1 \<subseteq> visited st'" by (simp add: extendsBy_def)
  from pushedFor_trans[OF a b v1 v2] show ?case by blast
qed

lemma orderedFrom_end: "length xs \<le> k \<Longrightarrow> orderedFrom svc rows cat k xs"
  unfolding orderedFrom_def by (meson leD le_less_trans)

lemma orderedFrom_append:
  assumes "orderedFrom svc rows cat k xs" and "orderedFrom svc rows cat (length xs) (xs @ ys)"
  shows "orderedFrom svc rows cat k (xs @ ys)"
  unfolding orderedFrom_def
proof (intro allI impI)
  fix i assume i: "k \<le> i \<and> i < length (xs @ ys)"
  show "\<forall>u \<in> set (dependencies ((xs @ ys) ! i)). settled svc rows cat (take i (xs @ ys)) u"
  proof (cases "i < length xs")
    case True
    then have "(xs @ ys) ! i = xs ! i" "take i (xs @ ys) = take i xs"
      by (simp_all add: nth_append)
    with assms(1) i True show ?thesis by (simp add: orderedFrom_def)
  next
    case False
    with assms(2) i show ?thesis by (simp add: orderedFrom_def)
  qed
qed

lemma orderedFrom_snoc:
  assumes "orderedFrom svc rows cat k xs"
    and "\<forall>u \<in> set (dependencies x). settled svc rows cat xs u"
  shows "orderedFrom svc rows cat k (xs @ [x])"
proof (rule orderedFrom_append[OF assms(1)])
  show "orderedFrom svc rows cat (length xs) (xs @ [x])"
    unfolding orderedFrom_def
  proof (intro allI impI)
    fix i assume "length xs \<le> i \<and> i < length (xs @ [x])"
    then have "i = length xs" by simp
    then show "\<forall>u \<in> set (dependencies ((xs @ [x]) ! i)). settled svc rows cat (take i (xs @ [x])) u"
      using assms(2) by simp
  qed
qed

lemma resolve_ordered:
  assumes "acyclicIds svc rows cat U rk" and "\<forall>t \<in> U. nextIds svc rows cat t \<subseteq> U"
  shows "resolve n svc rows cat d st = Some (Inr st') \<Longrightarrow> d \<in> U \<Longrightarrow>
           \<forall>t \<in> visited st. rk t \<le> rk d \<longrightarrow> settled svc rows cat (deps st) t \<Longrightarrow>
           orderedFrom svc rows cat (length (deps st)) (deps st')"
    and "resolveEach n svc rows cat ds st = Some (Inr st') \<Longrightarrow> set ds \<subseteq> U \<Longrightarrow>
           \<forall>u \<in> set ds. \<forall>t \<in> visited st. rk t \<le> rk u \<longrightarrow> settled svc rows cat (deps st) t \<Longrightarrow>
           orderedFrom svc rows cat (length (deps st)) (deps st')"
  using assms
proof (induction n svc rows cat d st and n svc rows cat ds st arbitrary: st' and st'
    rule: resolve_resolveEach.induct)
  case (1 svc rows cat depId st)
  then show ?case by simp
next
  case (2 n svc rows cat depId st)
  note ac = "2.prems"(4) and cl = "2.prems"(5)
  from "2.prems"(1) show ?case
  proof (cases rule: resolve_Suc_cases)
    case seen
    then show ?thesis by (simp add: orderedFrom_end)
  next
    case (installed dep)
    then show ?thesis by (simp add: orderedFrom_end)
  next
    case (pushed dep st2)
    let ?st1 = "st\<lparr>visited := insert depId (visited st)\<rparr>"
    have next_ids: "nextIds svc rows cat depId = set (dependencies dep)"
      using pushed(2,3) by (rule nextIds_pushed)
    then have sub: "set (dependencies dep) \<subseteq> U" using "2.prems"(2) cl by blast
    have below: "\<And>u. u \<in> set (dependencies dep) \<Longrightarrow> rk u < rk depId"
      using ac next_ids "2.prems"(2) unfolding acyclicIds_def by blast
    have pre1: "\<forall>u \<in> set (dependencies dep). \<forall>t \<in> visited ?st1.
                  rk t \<le> rk u \<longrightarrow> settled svc rows cat (deps ?st1) t"
    proof (intro ballI impI)
      fix u t assume u: "u \<in> set (dependencies dep)" and t: "t \<in> visited ?st1" and le: "rk t \<le> rk u"
      from below[OF u] le have lt: "rk t < rk depId" by simp
      then have "t \<noteq> depId" by auto
      with t have "t \<in> visited st" by simp
      with "2.prems"(3) lt show "settled svc rows cat (deps ?st1) t" by simp
    qed
    from "2.IH"[OF pushed(1) refl pushed(2) _ pushed(4) sub pre1 ac cl] pushed(3)
    have o2: "orderedFrom svc rows cat (length (deps st)) (deps st2)" by simp
    from resolve_grows(2)[OF pushed(4)]
    have e: "extendsBy svc rows cat ?st1 st2" and vis: "set (dependencies dep) \<subseteq> visited st2"
      by simp_all
    have "\<forall>u \<in> set (dependencies dep). settled svc rows cat (deps st2) u"
    proof
      fix u assume u: "u \<in> set (dependencies dep)"
      show "settled svc rows cat (deps st2) u"
      proof (cases "u \<in> visited ?st1")
        case True
        from below[OF u] have "u \<noteq> depId" by auto
        with True have "u \<in> visited st" by simp
        with "2.prems"(3) below[OF u] have "settled svc rows cat (deps ?st1) u" by simp
        then show ?thesis using e by (rule extendsBy_settled[rotated])
      next
        case False
        with u vis resolve_settles(2)[OF pushed(4)] show ?thesis by blast
      qed
    qed
    from orderedFrom_snoc[OF o2 this] show ?thesis using pushed(5) by simp
  qed
next
  case (3 n svc rows cat st)
  then show ?case by (simp add: orderedFrom_end)
next
  case (4 n svc rows cat d ds st)
  note ac = "4.prems"(4) and cl = "4.prems"(5)
  from "4.prems"(2) have dU: "d \<in> U" and dsU: "set ds \<subseteq> U" by auto
  from "4.prems"(1) obtain st1 where
    r1: "resolve n svc rows cat d st = Some (Inr st1)"
    and r2: "resolveEach n svc rows cat ds st1 = Some (Inr st')"
    by (rule resolveEach_Cons_cases)
  have pre_d: "\<forall>t \<in> visited st. rk t \<le> rk d \<longrightarrow> settled svc rows cat (deps st) t"
    using "4.prems"(3) by simp
  from "4.IH"(1)[OF r1 dU pre_d ac cl]
  have o1: "orderedFrom svc rows cat (length (deps st)) (deps st1)" .
  from resolve_grows(1)[OF r1] have e1: "extendsBy svc rows cat st st1" by simp
  have pre_ds: "\<forall>u \<in> set ds. \<forall>t \<in> visited st1. rk t \<le> rk u \<longrightarrow> settled svc rows cat (deps st1) t"
  proof (intro ballI impI)
    fix u t assume u: "u \<in> set ds" and t: "t \<in> visited st1" and le: "rk t \<le> rk u"
    show "settled svc rows cat (deps st1) t"
    proof (cases "t \<in> visited st")
      case True
      with "4.prems"(3) u le have "settled svc rows cat (deps st) t" by simp
      then show ?thesis using e1 by (rule extendsBy_settled[rotated])
    next
      case False
      with t resolve_settles(1)[OF r1] show ?thesis by blast
    qed
  qed
  from "4.IH"(2)[OF r1 refl r2 dsU pre_ds ac cl]
  have o2: "orderedFrom svc rows cat (length (deps st1)) (deps st')" .
  from resolve_grows(2)[OF r2] obtain new where n: "deps st' = deps st1 @ new"
    by (auto simp: extendsBy_def)
  from orderedFrom_append[OF o1] o2 n show ?case by simp
qed

lemma resolveEach_fuel_le:
  assumes "resolveEach n svc rows cat ds st = Some r" and "n \<le> m"
  shows "resolveEach m svc rows cat ds st = Some r"
  using assms(2,1)
proof (induction m rule: dec_induct)
  case base
  then show ?case .
next
  case (step k)
  then show ?case by (simp add: resolve_more_fuel(2))
qed

lemma resolveDependencies_more_fuel:
  assumes "resolveDependencies n svc rows a = Some r" and "n \<le> m"
  shows "resolveDependencies m svc rows a = Some r"
proof (cases "dependencies a = []")
  case True
  with assms show ?thesis by (simp add: resolveDependencies_def)
next
  case False
  let ?st0 = "\<lparr>visited = {}, deps = []\<rparr>"
  from False assms(1) obtain r' where
    r': "resolveEach n svc rows (catalogId a) (dependencies a) ?st0 = Some r'"
    by (auto simp: resolveDependencies_def split: option.splits)
  from resolveEach_fuel_le[OF r' assms(2)] r' False assms(1) show ?thesis
    by (simp add: resolveDependencies_def)
qed

lemma graphIds_closed: "closedIds svc rows a (graphIds svc rows a)"
  unfolding closedIds_def by (auto intro: graphIds.direct graphIds.step)

lemma graphIds_steps:
  "\<forall>t \<in> graphIds svc rows a. nextIds svc rows (catalogId a) t \<subseteq> graphIds svc rows a"
  using graphIds_closed[of svc rows a] by (simp add: closedIds_def)

lemma graphIds_direct: "set (dependencies a) \<subseteq> graphIds svc rows a"
  using graphIds_closed[of svc rows a] by (simp add: closedIds_def)

lemma graphIds_least:
  assumes "closedIds svc rows a U"
  shows "graphIds svc rows a \<subseteq> U"
proof
  fix t assume "t \<in> graphIds svc rows a"
  then show "t \<in> U"
  proof (induction rule: graphIds.induct)
    case (direct d)
    with assms show ?case by (auto simp: closedIds_def)
  next
    case (step d u)
    with assms show ?case by (auto simp: closedIds_def)
  qed
qed

lemma graphIds_none: "dependencies a = [] \<Longrightarrow> graphIds svc rows a = {}"
  using graphIds_least[of svc rows a "{}"] by (simp add: closedIds_def)

lemma resolveDependencies_returns:
  assumes "finite (graphIds svc rows a)" and "card (graphIds svc rows a) < n"
  shows "\<exists>r. resolveDependencies n svc rows a = Some r"
proof (cases "dependencies a = []")
  case True
  then show ?thesis by (simp add: resolveDependencies_def)
next
  case False
  let ?st0 = "\<lparr>visited = {}, deps = []\<rparr>"
  have "card (graphIds svc rows a - visited ?st0) < n" using assms(2) by simp
  from resolve_enough_fuel(2)[OF assms(1) graphIds_steps graphIds_direct this]
  obtain r where "resolveEach n svc rows (catalogId a) (dependencies a) ?st0 = Some r" by auto
  with False show ?thesis
    by (cases r) (simp_all add: resolveDependencies_def)
qed

lemma resolveDependencies_Inr:
  assumes "resolveDependencies n svc rows a = Some (Inr xs)"
  obtains (none) "dependencies a = []" and "xs = []"
  | (some) st where "dependencies a \<noteq> []"
      and "resolveEach n svc rows (catalogId a) (dependencies a) \<lparr>visited = {}, deps = []\<rparr>
             = Some (Inr st)"
      and "xs = deps st"
  using assms
  by (auto simp: resolveDependencies_def split: if_splits option.splits sum.splits)

lemma resolveEach_visits_graph:
  assumes "resolveEach n svc rows (catalogId a) (dependencies a) \<lparr>visited = {}, deps = []\<rparr>
             = Some (Inr st)"
  shows "visited st = graphIds svc rows a"
proof
  have "visited \<lparr>visited = {}, deps = []\<rparr> \<subseteq> graphIds svc rows a" by simp
  from resolve_visited_in(2)[OF graphIds_steps assms graphIds_direct this]
  show "visited st \<subseteq> graphIds svc rows a" .
next
  from resolve_grows(2)[OF assms]
  have direct: "set (dependencies a) \<subseteq> visited st"
    and fr: "\<forall>x \<in> set (deps st). fresh svc rows (catalogId a) {} (visited st) x"
    by (auto simp: extendsBy_def)
  from resolve_pushed(2)[OF assms] obtain ids where
    ids: "deps st = map (\<lambda>t. the (toInstall svc rows (catalogId a) t)) ids"
      "set ids = {t \<in> visited st. toInstall svc rows (catalogId a) t \<noteq> None}"
    by (auto simp: pushedFor_def)
  have "\<forall>d \<in> visited st. nextIds svc rows (catalogId a) d \<subseteq> visited st"
  proof
    fix d assume d: "d \<in> visited st"
    show "nextIds svc rows (catalogId a) d \<subseteq> visited st"
    proof (cases "toInstall svc rows (catalogId a) d")
      case None
      then have "nextIds svc rows (catalogId a) d = {}"
        by (auto simp: nextIds_def toInstall_def split: option.splits if_splits)
      then show ?thesis by simp
    next
      case (Some dep)
      then have n: "nextIds svc rows (catalogId a) d = set (dependencies dep)"
        by (auto simp: nextIds_def toInstall_def split: option.splits if_splits)
      from d Some ids(2) have "d \<in> set ids" by simp
      then have "the (toInstall svc rows (catalogId a) d) \<in> set (deps st)"
        unfolding ids(1) by (rule imageI[of d "set ids", folded set_map])
      with Some have "dep \<in> set (deps st)" by simp
      with fr have "set (dependencies dep) \<subseteq> visited st" by (simp add: fresh_def)
      with n show ?thesis by simp
    qed
  qed
  with direct have "closedIds svc rows a (visited st)" by (simp add: closedIds_def)
  then show "graphIds svc rows a \<subseteq> visited st" by (rule graphIds_least)
qed

lemma resolveDependencies_failure:
  assumes "resolveDependencies n svc rows a = Some (Inl e)"
  shows "\<exists>t \<in> graphIds svc rows a. e = JsError (''Dependency not found: '' @ t) \<and>
             findDependency svc (catalogId a) t = None"
proof -
  from assms have
    "resolveEach n svc rows (catalogId a) (dependencies a) \<lparr>visited = {}, deps = []\<rparr>
       = Some (Inl e)"
    by (auto simp: resolveDependencies_def split: if_splits option.splits sum.splits)
  from resolve_error(2)[OF graphIds_steps this graphIds_direct] show ?thesis .
qed

lemma resolveDependencies_entries:
  assumes "resolveDependencies n svc rows a = Some (Inr xs)"
  shows "\<exists>ids. distinct ids \<and>
           set ids = {t \<in> graphIds svc rows a. toInstall svc rows (catalogId a) t \<noteq> None} \<and>
           xs = map (\<lambda>t. the (toInstall svc rows (catalogId a) t)) ids"
  using assms
proof (cases rule: resolveDependencies_Inr)
  case none
  then have "distinct ([] :: string list) \<and>
           set [] = {t \<in> graphIds svc rows a. toInstall svc rows (catalogId a) t \<noteq> None} \<and>
           xs = map (\<lambda>t. the (toInstall svc rows (catalogId a) t)) []"
    by (simp add: graphIds_none)
  then show ?thesis by blast
next
  case (some st)
  from resolve_pushed(2)[OF some(2)] obtain ids where
    "pushedFor svc rows (catalogId a) \<lparr>visited = {}, deps = []\<rparr> st ids" by blast
  then have "distinct ids \<and>
           set ids = {t \<in> graphIds svc rows a. toInstall svc rows (catalogId a) t \<noteq> None} \<and>
           xs = map (\<lambda>t. the (toInstall svc rows (catalogId a) t)) ids"
    using some(3) resolveEach_visits_graph[OF some(2)] by (simp add: pushedFor_def)
  then show ?thesis by blast
qed

lemma resolveDependencies_members:
  assumes "resolveDependencies n svc rows a = Some (Inr xs)" and "x \<in> set xs"
  shows "\<exists>t \<in> graphIds svc rows a. toInstall svc rows (catalogId a) t = Some x"
proof -
  from resolveDependencies_entries[OF assms(1)] obtain ids where
    ids: "set ids = {t \<in> graphIds svc rows a. toInstall svc rows (catalogId a) t \<noteq> None}"
      "xs = map (\<lambda>t. the (toInstall svc rows (catalogId a) t)) ids"
    by blast
  from assms(2) ids(2) obtain t where t: "t \<in> set ids"
    "x = the (toInstall svc rows (catalogId a) t)" by auto
  from t(1) ids(1) have "t \<in> graphIds svc rows a" "toInstall svc rows (catalogId a) t \<noteq> None"
    by simp_all
  with t(2) show ?thesis by auto
qed

lemma resolveDependencies_appears:
  assumes "resolveDependencies n svc rows a = Some (Inr xs)"
    and "t \<in> graphIds svc rows a" and "toInstall svc rows (catalogId a) t = Some y"
  shows "y \<in> set xs"
proof -
  from resolveDependencies_entries[OF assms(1)] obtain ids where
    ids: "set ids = {t \<in> graphIds svc rows a. toInstall svc rows (catalogId a) t \<noteq> None}"
      "xs = map (\<lambda>t. the (toInstall svc rows (catalogId a) t)) ids"
    by blast
  from assms(2,3) ids(1) have "t \<in> set ids" by simp
  then have "the (toInstall svc rows (catalogId a) t) \<in> set xs"
    unfolding ids(2) by (rule imageI[of t "set ids", folded set_map])
  with assms(3) show ?thesis by simp
qed

lemma resolveDependencies_not_installed:
  assumes "resolveDependencies n svc rows a = Some (Inr xs)" and "x \<in> set xs"
  shows "getInstallation rows (catalogId x) (aid x) = None"
  using resolveDependencies_members[OF assms]
  by (auto simp: toInstall_def split: option.splits if_splits)

lemma resolveDependencies_settled:
  assumes "resolveDependencies n svc rows a = Some (Inr xs)" and "t \<in> graphIds svc rows a"
  shows "settled svc rows (catalogId a) xs t"
  using assms(1)
proof (cases rule: resolveDependencies_Inr)
  case none
  with assms(2) show ?thesis by (simp add: graphIds_none)
next
  case (some st)
  from resolve_settles(2)[OF some(2)] assms(2) some(3) resolveEach_visits_graph[OF some(2)]
  show ?thesis by simp
qed

lemma resolveDependencies_distinct:
  assumes "resolveDependencies n svc rows a = Some (Inr xs)"
  shows "distinct xs \<longleftrightarrow> oneIdPerArtifact svc rows (catalogId a) (graphIds svc rows a)"
proof -
  let ?f = "\<lambda>t. the (toInstall svc rows (catalogId a) t)"
  from resolveDependencies_entries[OF assms] obtain ids where
    ids: "distinct ids"
      "set ids = {t \<in> graphIds svc rows a. toInstall svc rows (catalogId a) t \<noteq> None}"
      "xs = map ?f ids"
    by blast
  have "distinct xs \<longleftrightarrow> inj_on ?f (set ids)" using ids(1,3) by (simp add: distinct_map)
  also have "\<dots> \<longleftrightarrow> oneIdPerArtifact svc rows (catalogId a) (graphIds svc rows a)"
  proof
    assume inj: "inj_on ?f (set ids)"
    show "oneIdPerArtifact svc rows (catalogId a) (graphIds svc rows a)"
      unfolding oneIdPerArtifact_def
    proof (intro ballI impI)
      fix t t' assume t: "t \<in> graphIds svc rows a" and t': "t' \<in> graphIds svc rows a"
        and e: "toInstall svc rows (catalogId a) t \<noteq> None \<and>
                toInstall svc rows (catalogId a) t = toInstall svc rows (catalogId a) t'"
      from e have "toInstall svc rows (catalogId a) t' \<noteq> None" by metis
      with t t' e ids(2) have "t \<in> set ids" "t' \<in> set ids" by simp_all
      moreover from e have "?f t = ?f t'" by simp
      ultimately show "t = t'" using inj by (simp add: inj_on_def)
    qed
  next
    assume one: "oneIdPerArtifact svc rows (catalogId a) (graphIds svc rows a)"
    show "inj_on ?f (set ids)"
    proof (rule inj_onI)
      fix t t' assume t: "t \<in> set ids" and t': "t' \<in> set ids" and e: "?f t = ?f t'"
      from t t' ids(2) have g: "t \<in> graphIds svc rows a" "t' \<in> graphIds svc rows a"
        and n: "toInstall svc rows (catalogId a) t \<noteq> None"
          "toInstall svc rows (catalogId a) t' \<noteq> None"
        by simp_all
      from n e have "toInstall svc rows (catalogId a) t = toInstall svc rows (catalogId a) t'"
        by auto
      with one g n(1) show "t = t'" unfolding oneIdPerArtifact_def by blast
    qed
  qed
  finally show ?thesis .
qed

lemma resolveDependencies_ordered:
  assumes "resolveDependencies n svc rows a = Some (Inr xs)"
    and "acyclicIds svc rows (catalogId a) (graphIds svc rows a) rk"
  shows "prerequisitesPrecede svc (catalogId a) xs"
  using assms(1)
proof (cases rule: resolveDependencies_Inr)
  case none
  then show ?thesis by (simp add: prerequisitesPrecede_def)
next
  case (some st)
  have "\<forall>u \<in> set (dependencies a). \<forall>t \<in> visited \<lparr>visited = {}, deps = []\<rparr>.
          rk t \<le> rk u \<longrightarrow> settled svc rows (catalogId a) (deps \<lparr>visited = {}, deps = []\<rparr>) t"
    by simp
  from resolve_ordered(2)[OF assms(2) graphIds_steps some(2) graphIds_direct this] some(3)
  have ord: "orderedFrom svc rows (catalogId a) 0 xs" by simp
  show ?thesis
    unfolding prerequisitesPrecede_def
  proof (intro allI impI ballI)
    fix i u assume i: "i < length xs" and u: "u \<in> set (dependencies (xs ! i))"
    from ord i u have s: "settled svc rows (catalogId a) (take i xs) u"
      by (simp add: orderedFrom_def)
    show "case findDependency svc (catalogId a) u of None \<Rightarrow> True
          | Some y \<Rightarrow> y \<in> set xs \<longrightarrow> y \<in> set (take i xs)"
    proof (cases "findDependency svc (catalogId a) u")
      case None
      then show ?thesis by simp
    next
      case (Some y)
      with s have "getInstallation rows (catalogId y) (aid y) \<noteq> None \<or> y \<in> set (take i xs)"
        by (simp add: settled_def)
      moreover have "y \<in> set xs \<Longrightarrow> getInstallation rows (catalogId y) (aid y) = None"
        using resolveDependencies_not_installed[OF assms(1)] by blast
      ultimately show ?thesis using Some by auto
    qed
  qed
qed

lemma resolveDependencies_fails_iff:
  assumes "resolveDependencies n svc rows a = Some r"
  shows "(\<exists>e. r = Inl e) \<longleftrightarrow>
         (\<exists>t \<in> graphIds svc rows a. findDependency svc (catalogId a) t = None)"
proof (cases r)
  case (Inl e)
  with assms resolveDependencies_failure[of n svc rows a e] show ?thesis by blast
next
  case (Inr xs)
  with assms have rx: "resolveDependencies n svc rows a = Some (Inr xs)" by simp
  have "\<forall>t \<in> graphIds svc rows a. findDependency svc (catalogId a) t \<noteq> None"
  proof
    fix t assume "t \<in> graphIds svc rows a"
    from resolveDependencies_settled[OF rx this]
    show "findDependency svc (catalogId a) t \<noteq> None"
      by (auto simp: settled_def split: option.splits)
  qed
  with Inr show ?thesis by auto
qed

lemma oneIdPerArtifact_by_id:
  assumes "\<And>t y. findDependency svc cat t = Some y \<Longrightarrow> aid y = t"
  shows "oneIdPerArtifact svc rows cat U"
  unfolding oneIdPerArtifact_def
proof (intro ballI impI)
  fix t t' assume e: "toInstall svc rows cat t \<noteq> None \<and>
                      toInstall svc rows cat t = toInstall svc rows cat t'"
  then obtain y where "toInstall svc rows cat t = Some y" by blast
  with e have y: "toInstall svc rows cat t = Some y" "toInstall svc rows cat t' = Some y"
    by simp_all
  then have "findDependency svc cat t = Some y" "findDependency svc cat t' = Some y"
    by (auto simp: toInstall_def split: option.splits if_splits)
  then show "t = t'" using assms by blast
qed

lemma acyclicIds_mono:
  "acyclicIds svc rows cat V rk \<Longrightarrow> U \<subseteq> V \<Longrightarrow> acyclicIds svc rows cat U rk"
  unfolding acyclicIds_def by blast

lemma graphIds_bounded:
  assumes "closedIds svc rows a U" and "finite U" and "card U < n"
  shows "finite (graphIds svc rows a) \<and> card (graphIds svc rows a) < n"
proof -
  from graphIds_least[OF assms(1)] have sub: "graphIds svc rows a \<subseteq> U" .
  then have "finite (graphIds svc rows a)" using assms(2) by (rule finite_subset)
  moreover from sub assms(2) have "card (graphIds svc rows a) \<le> card U" by (rule card_mono[rotated])
  ultimately show ?thesis using assms(3) by simp
qed

lemma cycle_closed: "closedIds cycleService [] (sampleArtifact ''a'' [''b'']) {''a'', ''b''}"
  by code_simp

lemma cycle_bounded:
  "finite (graphIds cycleService [] (sampleArtifact ''a'' [''b''])) \<and>
   card (graphIds cycleService [] (sampleArtifact ''a'' [''b''])) < 3"
  by (rule graphIds_bounded[OF cycle_closed]) simp_all

lemma cycle_finds_by_id: "findDependency cycleService ''c'' t = Some y \<Longrightarrow> aid y = t"
  by (auto simp: findDependency_def cycleService_def byId_def sampleArtifact_def split: if_splits)

lemma cycle_result:
  "resolveDependencies 3 cycleService [] (sampleArtifact ''a'' [''b''])
     = Some (Inr [sampleArtifact ''a'' [''b''], sampleArtifact ''b'' [''a'']])"
  by code_simp

lemma chain_closed:
  "closedIds chainService chainRows (sampleArtifact ''t'' [''b'']) {''b'', ''c'', ''d''}"
  by code_simp

lemma chain_bounded:
  "finite (graphIds chainService chainRows (sampleArtifact ''t'' [''b''])) \<and>
   card (graphIds chainService chainRows (sampleArtifact ''t'' [''b''])) < 4"
  by (rule graphIds_bounded[OF chain_closed]) simp_all

lemma chain_finds_by_id: "findDependency chainService ''c'' t = Some y \<Longrightarrow> aid y = t"
  by (auto simp: findDependency_def chainService_def byId_def sampleArtifact_def split: if_splits)

lemma chain_acyclic: "acyclicIds chainService chainRows ''c'' U chainRank"
  by (auto simp: acyclicIds_def nextIds_def findDependency_def chainService_def byId_def
      sampleArtifact_def chainRank_def chainRows_def installedRows_def getInstallation_def
      split: if_splits)

lemma chain_result:
  "resolveDependencies 4 chainService chainRows (sampleArtifact ''t'' [''b''])
     = Some (Inr [sampleArtifact ''c'' [''d''], sampleArtifact ''b'' [''c'']])"
  by code_simp

lemma sample_catalogId: "catalogId (sampleArtifact i ds) = ''c''"
  by (simp add: sampleArtifact_def)

text \<open>
  Claim C2, as amended. For every finite dependency graph, cyclic or not,
  \<open>resolveDependencies\<close> terminates: once the bound on the recursion depth exceeds the
  number of ids of the graph it returns, and every larger bound gives the same result.
  It returns a list exactly when every id of the graph matches an artifact. The list
  has one entry for each id of the graph whose artifact is not installed, which is that
  artifact: every such artifact appears in the list, the list holds nothing else, and
  no artifact appears twice exactly when no two ids of the graph lead to the same
  artifact. On the cycle \<open>a \<rightarrow> b \<rightarrow> a\<close>, with both found by id and neither installed,
  the list is \<open>[a, b]\<close>.
\<close>

theorem resolveDependencies_terminates:
  assumes "finite (graphIds svc rows a)" and "card (graphIds svc rows a) < n"
  shows "\<exists>r. resolveDependencies n svc rows a = Some r \<and>
     (\<forall>m \<ge> n. resolveDependencies m svc rows a = Some r) \<and>
     ((\<exists>xs. r = Inr xs) \<longleftrightarrow>
        (\<forall>t \<in> graphIds svc rows a. findDependency svc (catalogId a) t \<noteq> None)) \<and>
     (\<forall>xs. r = Inr xs \<longrightarrow>
        (\<exists>ids. distinct ids \<and>
           set ids = {t \<in> graphIds svc rows a. toInstall svc rows (catalogId a) t \<noteq> None} \<and>
           xs = map (\<lambda>t. the (toInstall svc rows (catalogId a) t)) ids) \<and>
        (\<forall>t \<in> graphIds svc rows a. \<forall>y.
           toInstall svc rows (catalogId a) t = Some y \<longrightarrow> y \<in> set xs) \<and>
        (\<forall>x \<in> set xs. \<exists>t \<in> graphIds svc rows a. toInstall svc rows (catalogId a) t = Some x) \<and>
        (distinct xs \<longleftrightarrow> oneIdPerArtifact svc rows (catalogId a) (graphIds svc rows a)))"
proof -
  from resolveDependencies_returns[OF assms] obtain r where
    r: "resolveDependencies n svc rows a = Some r" by blast
  have 1: "\<forall>m \<ge> n. resolveDependencies m svc rows a = Some r"
    using resolveDependencies_more_fuel[OF r] by blast
  have 2: "(\<exists>xs. r = Inr xs) \<longleftrightarrow>
        (\<forall>t \<in> graphIds svc rows a. findDependency svc (catalogId a) t \<noteq> None)"
    using resolveDependencies_fails_iff[OF r] by (cases r) auto
  have 3: "\<forall>xs. r = Inr xs \<longrightarrow>
        (\<exists>ids. distinct ids \<and>
           set ids = {t \<in> graphIds svc rows a. toInstall svc rows (catalogId a) t \<noteq> None} \<and>
           xs = map (\<lambda>t. the (toInstall svc rows (catalogId a) t)) ids) \<and>
        (\<forall>t \<in> graphIds svc rows a. \<forall>y.
           toInstall svc rows (catalogId a) t = Some y \<longrightarrow> y \<in> set xs) \<and>
        (\<forall>x \<in> set xs. \<exists>t \<in> graphIds svc rows a. toInstall svc rows (catalogId a) t = Some x) \<and>
        (distinct xs \<longleftrightarrow> oneIdPerArtifact svc rows (catalogId a) (graphIds svc rows a))"
  proof (intro allI impI)
    fix xs assume "r = Inr xs"
    with r have rx: "resolveDependencies n svc rows a = Some (Inr xs)" by simp
    note a = resolveDependencies_entries[OF rx]
    have b: "\<forall>t \<in> graphIds svc rows a. \<forall>y.
           toInstall svc rows (catalogId a) t = Some y \<longrightarrow> y \<in> set xs"
      using resolveDependencies_appears[OF rx] by blast
    have c: "\<forall>x \<in> set xs. \<exists>t \<in> graphIds svc rows a. toInstall svc rows (catalogId a) t = Some x"
      using resolveDependencies_members[OF rx] by blast
    note d = resolveDependencies_distinct[OF rx]
    show "(\<exists>ids. distinct ids \<and>
           set ids = {t \<in> graphIds svc rows a. toInstall svc rows (catalogId a) t \<noteq> None} \<and>
           xs = map (\<lambda>t. the (toInstall svc rows (catalogId a) t)) ids) \<and>
        (\<forall>t \<in> graphIds svc rows a. \<forall>y.
           toInstall svc rows (catalogId a) t = Some y \<longrightarrow> y \<in> set xs) \<and>
        (\<forall>x \<in> set xs. \<exists>t \<in> graphIds svc rows a. toInstall svc rows (catalogId a) t = Some x) \<and>
        (distinct xs \<longleftrightarrow> oneIdPerArtifact svc rows (catalogId a) (graphIds svc rows a))"
      by (intro conjI a b c d)
  qed
  show ?thesis by (rule exI[of _ r]) (intro conjI r 1 2 3)
qed

theorem resolveDependencies_terminates_witness:
  "finite (graphIds cycleService [] (sampleArtifact ''a'' [''b''])) \<and>
   card (graphIds cycleService [] (sampleArtifact ''a'' [''b''])) < 3 \<and>
   ''a'' \<in> graphIds cycleService [] (sampleArtifact ''a'' [''b'']) \<and>
   ''b'' \<in> graphIds cycleService [] (sampleArtifact ''a'' [''b'']) \<and>
   toInstall cycleService [] ''c'' ''a'' = Some (sampleArtifact ''a'' [''b'']) \<and>
   toInstall cycleService [] ''c'' ''b'' = Some (sampleArtifact ''b'' [''a'']) \<and>
   oneIdPerArtifact cycleService [] ''c'' (graphIds cycleService [] (sampleArtifact ''a'' [''b''])) \<and>
   resolveDependencies 3 cycleService [] (sampleArtifact ''a'' [''b''])
     = Some (Inr [sampleArtifact ''a'' [''b''], sampleArtifact ''b'' [''a'']]) \<and>
   resolveDependencies 9 cycleService [] (sampleArtifact ''a'' [''b''])
     = Some (Inr [sampleArtifact ''a'' [''b''], sampleArtifact ''b'' [''a'']]) \<and>
   sampleArtifact ''a'' [''b''] \<in> set [sampleArtifact ''a'' [''b''], sampleArtifact ''b'' [''a'']] \<and>
   sampleArtifact ''b'' [''a''] \<in> set [sampleArtifact ''a'' [''b''], sampleArtifact ''b'' [''a'']] \<and>
   distinct [sampleArtifact ''a'' [''b''], sampleArtifact ''b'' [''a'']]"
proof -
  let ?A = "sampleArtifact ''a'' [''b'']"
  let ?B = "sampleArtifact ''b'' [''a'']"
  let ?G = "graphIds cycleService [] ?A"
  note f = cycle_bounded[THEN conjunct1] and c = cycle_bounded[THEN conjunct2]
  have tb: "toInstall cycleService [] ''c'' ''b'' = Some ?B" by code_simp
  have ta: "toInstall cycleService [] ''c'' ''a'' = Some ?A" by code_simp
  have gb: "''b'' \<in> ?G" by (rule graphIds.direct) (simp add: sampleArtifact_def)
  have "''a'' \<in> nextIds cycleService [] (catalogId ?A) ''b''" by code_simp
  with gb have ga: "''a'' \<in> ?G" by (rule graphIds.step)
  have one: "oneIdPerArtifact cycleService [] ''c'' ?G"
    using cycle_finds_by_id by (rule oneIdPerArtifact_by_id)
  from resolveDependencies_terminates[OF f c] obtain r where
    r: "resolveDependencies 3 cycleService [] ?A = Some r"
    and m: "\<forall>m \<ge> 3. resolveDependencies m cycleService [] ?A = Some r"
    and p: "\<forall>xs. r = Inr xs \<longrightarrow>
        (\<exists>ids. distinct ids \<and>
           set ids = {t \<in> ?G. toInstall cycleService [] (catalogId ?A) t \<noteq> None} \<and>
           xs = map (\<lambda>t. the (toInstall cycleService [] (catalogId ?A) t)) ids) \<and>
        (\<forall>t \<in> ?G. \<forall>y. toInstall cycleService [] (catalogId ?A) t = Some y \<longrightarrow> y \<in> set xs) \<and>
        (\<forall>x \<in> set xs. \<exists>t \<in> ?G. toInstall cycleService [] (catalogId ?A) t = Some x) \<and>
        (distinct xs \<longleftrightarrow> oneIdPerArtifact cycleService [] (catalogId ?A) ?G)"
    by (elim exE conjE)
  from r cycle_result have e: "r = Inr [?A, ?B]" by simp
  from m have 9: "resolveDependencies 9 cycleService [] ?A = Some r" by simp
  note q = p[rule_format, OF e]
  note q2 = q[THEN conjunct2, THEN conjunct1, rule_format]
  note q4 = q[THEN conjunct2, THEN conjunct2, THEN conjunct2]
  from q4 one have d: "distinct [?A, ?B]" by (simp add: sample_catalogId)
  from q2[OF ga] ta have ia: "?A \<in> set [?A, ?B]" by (simp add: sample_catalogId)
  from q2[OF gb] tb have ib: "?B \<in> set [?A, ?B]" by (simp add: sample_catalogId)
  from f c ga gb ta tb one r 9 e d ia ib show ?thesis by simp
qed

text \<open>
  The claim as stated fails where the search leads a second id to an artifact of the
  cycle: \<open>b\<close> is returned twice. It also fails where an artifact of the cycle is
  installed: with \<open>b\<close> installed the list is empty.
\<close>

theorem resolveDependencies_alias_counterexample:
  "resolveDependencies 4 aliasService [] (sampleArtifact ''a'' [''b'', ''bee''])
     = Some (Inr [sampleArtifact ''b'' [''a''], sampleArtifact ''a'' [''b'', ''bee''],
                  sampleArtifact ''b'' [''a'']]) \<and>
   count_list [sampleArtifact ''b'' [''a''], sampleArtifact ''a'' [''b'', ''bee''],
               sampleArtifact ''b'' [''a'']] (sampleArtifact ''b'' [''a'']) = 2 \<and>
   getInstallation (installedRows ''b'') ''c'' ''b'' \<noteq> None \<and>
   resolveDependencies 3 cycleService (installedRows ''b'') (sampleArtifact ''a'' [''b''])
     = Some (Inr [])"
  by code_simp

text \<open>
  Claim C3, as amended. Every dependency id is looked up in the catalog of the artifact
  whose dependencies are resolved, then in the search. On a finite dependency graph
  \<open>resolveDependencies\<close> returns: a list when every id of the graph matches an
  artifact, and otherwise the error \<open>Dependency not found: t\<close> for an id \<open>t\<close> of the
  graph that matches no artifact in that catalog and none in the search. In a returned
  list no artifact is installed and each was found for an id of the graph; the artifact
  of every id of the graph is installed or in the list; no artifact appears twice
  exactly when no two ids of the graph lead to the same artifact; and when the graph
  is acyclic, every returned artifact comes after its own returned prerequisites.
\<close>

theorem resolveDependencies_install_order:
  assumes "finite (graphIds svc rows a)" and "card (graphIds svc rows a) < n"
  shows "\<exists>r. resolveDependencies n svc rows a = Some r \<and>
     ((\<exists>xs. r = Inr xs) \<longleftrightarrow>
        (\<forall>t \<in> graphIds svc rows a. findDependency svc (catalogId a) t \<noteq> None)) \<and>
     (\<forall>e. r = Inl e \<longrightarrow>
        (\<exists>t \<in> graphIds svc rows a. e = JsError (''Dependency not found: '' @ t) \<and>
             findDependency svc (catalogId a) t = None)) \<and>
     (\<forall>xs. r = Inr xs \<longrightarrow>
        (\<forall>x \<in> set xs. getInstallation rows (catalogId x) (aid x) = None \<and>
           (\<exists>t \<in> graphIds svc rows a. findDependency svc (catalogId a) t = Some x)) \<and>
        (\<forall>t \<in> graphIds svc rows a. settled svc rows (catalogId a) xs t) \<and>
        (distinct xs \<longleftrightarrow> oneIdPerArtifact svc rows (catalogId a) (graphIds svc rows a)) \<and>
        ((\<exists>rk. acyclicIds svc rows (catalogId a) (graphIds svc rows a) rk)
           \<longrightarrow> prerequisitesPrecede svc (catalogId a) xs))"
proof -
  from resolveDependencies_returns[OF assms] obtain r where
    r: "resolveDependencies n svc rows a = Some r" by blast
  have 1: "(\<exists>xs. r = Inr xs) \<longleftrightarrow>
        (\<forall>t \<in> graphIds svc rows a. findDependency svc (catalogId a) t \<noteq> None)"
    using resolveDependencies_fails_iff[OF r] by (cases r) auto
  have 2: "\<forall>e. r = Inl e \<longrightarrow>
        (\<exists>t \<in> graphIds svc rows a. e = JsError (''Dependency not found: '' @ t) \<and>
             findDependency svc (catalogId a) t = None)"
    using resolveDependencies_failure r by blast
  have 3: "\<forall>xs. r = Inr xs \<longrightarrow>
        (\<forall>x \<in> set xs. getInstallation rows (catalogId x) (aid x) = None \<and>
           (\<exists>t \<in> graphIds svc rows a. findDependency svc (catalogId a) t = Some x)) \<and>
        (\<forall>t \<in> graphIds svc rows a. settled svc rows (catalogId a) xs t) \<and>
        (distinct xs \<longleftrightarrow> oneIdPerArtifact svc rows (catalogId a) (graphIds svc rows a)) \<and>
        ((\<exists>rk. acyclicIds svc rows (catalogId a) (graphIds svc rows a) rk)
           \<longrightarrow> prerequisitesPrecede svc (catalogId a) xs)"
  proof (intro allI impI)
    fix xs assume "r = Inr xs"
    with r have rx: "resolveDependencies n svc rows a = Some (Inr xs)" by simp
    have a: "\<forall>x \<in> set xs. getInstallation rows (catalogId x) (aid x) = None \<and>
           (\<exists>t \<in> graphIds svc rows a. findDependency svc (catalogId a) t = Some x)"
    proof
      fix x assume x: "x \<in> set xs"
      from resolveDependencies_members[OF rx x] obtain t where
        t: "t \<in> graphIds svc rows a" "toInstall svc rows (catalogId a) t = Some x" by blast
      from t(2) have "findDependency svc (catalogId a) t = Some x"
        by (auto simp: toInstall_def split: option.splits if_splits)
      with t(1) resolveDependencies_not_installed[OF rx x]
      show "getInstallation rows (catalogId x) (aid x) = None \<and>
           (\<exists>t \<in> graphIds svc rows a. findDependency svc (catalogId a) t = Some x)"
        by blast
    qed
    have b: "\<forall>t \<in> graphIds svc rows a. settled svc rows (catalogId a) xs t"
      using resolveDependencies_settled[OF rx] by blast
    note c = resolveDependencies_distinct[OF rx]
    have d: "(\<exists>rk. acyclicIds svc rows (catalogId a) (graphIds svc rows a) rk)
           \<longrightarrow> prerequisitesPrecede svc (catalogId a) xs"
      using resolveDependencies_ordered[OF rx] by blast
    show "(\<forall>x \<in> set xs. getInstallation rows (catalogId x) (aid x) = None \<and>
           (\<exists>t \<in> graphIds svc rows a. findDependency svc (catalogId a) t = Some x)) \<and>
        (\<forall>t \<in> graphIds svc rows a. settled svc rows (catalogId a) xs t) \<and>
        (distinct xs \<longleftrightarrow> oneIdPerArtifact svc rows (catalogId a) (graphIds svc rows a)) \<and>
        ((\<exists>rk. acyclicIds svc rows (catalogId a) (graphIds svc rows a) rk)
           \<longrightarrow> prerequisitesPrecede svc (catalogId a) xs)"
      by (intro conjI a b c d)
  qed
  show ?thesis by (rule exI[of _ r]) (intro conjI r 1 2 3)
qed

theorem resolveDependencies_install_order_witness:
  "finite (graphIds chainService chainRows (sampleArtifact ''t'' [''b''])) \<and>
   card (graphIds chainService chainRows (sampleArtifact ''t'' [''b''])) < 4 \<and>
   oneIdPerArtifact chainService chainRows ''c''
     (graphIds chainService chainRows (sampleArtifact ''t'' [''b''])) \<and>
   acyclicIds chainService chainRows ''c''
     (graphIds chainService chainRows (sampleArtifact ''t'' [''b''])) chainRank \<and>
   resolveDependencies 4 chainService chainRows (sampleArtifact ''t'' [''b''])
     = Some (Inr [sampleArtifact ''c'' [''d''], sampleArtifact ''b'' [''c'']]) \<and>
   distinct [sampleArtifact ''c'' [''d''], sampleArtifact ''b'' [''c'']] \<and>
   prerequisitesPrecede chainService ''c'' [sampleArtifact ''c'' [''d''], sampleArtifact ''b'' [''c'']] \<and>
   ''d'' \<in> graphIds chainService chainRows (sampleArtifact ''t'' [''b'']) \<and>
   findDependency chainService ''c'' ''d'' = Some (sampleArtifact ''d'' []) \<and>
   getInstallation chainRows ''c'' ''d'' \<noteq> None \<and>
   resolveDependencies 4 chainService chainRows (sampleArtifact ''u'' [''b'', ''zzz''])
     = Some (Inl (JsError ''Dependency not found: zzz''))"
proof -
  let ?T = "sampleArtifact ''t'' [''b'']"
  let ?G = "graphIds chainService chainRows ?T"
  note f = chain_bounded[THEN conjunct1] and c = chain_bounded[THEN conjunct2]
  have one: "oneIdPerArtifact chainService chainRows ''c'' ?G"
    using chain_finds_by_id by (rule oneIdPerArtifact_by_id)
  note ac = chain_acyclic[of ?G]
  from resolveDependencies_install_order[OF f c] obtain r where
    r: "resolveDependencies 4 chainService chainRows ?T = Some r"
    and l: "(\<exists>xs. r = Inr xs) \<longleftrightarrow>
        (\<forall>t \<in> ?G. findDependency chainService (catalogId ?T) t \<noteq> None)"
    and p: "\<forall>xs. r = Inr xs \<longrightarrow>
        (\<forall>x \<in> set xs. getInstallation chainRows (catalogId x) (aid x) = None \<and>
           (\<exists>t \<in> ?G. findDependency chainService (catalogId ?T) t = Some x)) \<and>
        (\<forall>t \<in> ?G. settled chainService chainRows (catalogId ?T) xs t) \<and>
        (distinct xs \<longleftrightarrow> oneIdPerArtifact chainService chainRows (catalogId ?T) ?G) \<and>
        ((\<exists>rk. acyclicIds chainService chainRows (catalogId ?T) ?G rk)
           \<longrightarrow> prerequisitesPrecede chainService (catalogId ?T) xs)"
    by (elim exE conjE)
  from r chain_result have e: "r = Inr [sampleArtifact ''c'' [''d''], sampleArtifact ''b'' [''c'']]"
    by simp
  note q = p[rule_format, OF e]
  note q3 = q[THEN conjunct2, THEN conjunct2, THEN conjunct1]
  note q4 = q[THEN conjunct2, THEN conjunct2, THEN conjunct2, rule_format]
  from q3 one have d: "distinct [sampleArtifact ''c'' [''d''], sampleArtifact ''b'' [''c'']]"
    by (simp add: sample_catalogId)
  from ac have "\<exists>rk. acyclicIds chainService chainRows (catalogId ?T) ?G rk"
    unfolding sample_catalogId by blast
  from q4[OF this]
  have o: "prerequisitesPrecede chainService ''c''
              [sampleArtifact ''c'' [''d''], sampleArtifact ''b'' [''c'']]"
    by (simp add: sample_catalogId)
  have gb: "''b'' \<in> ?G" by (rule graphIds.direct) (simp add: sampleArtifact_def)
  have "''c'' \<in> nextIds chainService chainRows (catalogId ?T) ''b''" by code_simp
  with gb have gc: "''c'' \<in> ?G" by (rule graphIds.step)
  have "''d'' \<in> nextIds chainService chainRows (catalogId ?T) ''c''" by code_simp
  with gc have gd: "''d'' \<in> ?G" by (rule graphIds.step)
  have "\<exists>xs. r = Inr xs" using e by blast
  with l gd have "findDependency chainService ''c'' ''d'' \<noteq> None"
    by (simp add: sample_catalogId)
  moreover have "\<And>y. findDependency chainService ''c'' ''d'' = Some y \<Longrightarrow> y = sampleArtifact ''d'' []"
    by (simp add: findDependency_def chainService_def byId_def sampleArtifact_def)
  ultimately have a: "findDependency chainService ''c'' ''d'' = Some (sampleArtifact ''d'' [])"
    by blast
  have i: "getInstallation chainRows ''c'' ''d'' \<noteq> None" by code_simp
  have m: "resolveDependencies 4 chainService chainRows (sampleArtifact ''u'' [''b'', ''zzz''])
     = Some (Inl (JsError ''Dependency not found: zzz''))"
    by code_simp
  from f c one ac r e d o gd a i m show ?thesis by simp
qed

text \<open>
  The claim as stated fails on the cycle \<open>a \<rightarrow> b \<rightarrow> a\<close>, where \<open>a\<close> is returned before
  its prerequisite \<open>b\<close>; where the search returns for a second id an artifact that is
  already in the list; and where a dependency id of an artifact found in another
  catalog matches an artifact of that catalog: the id \<open>k\<close> of \<open>m\<close> is looked up in the
  catalog of \<open>t\<close> and reported as not found.
\<close>

theorem resolveDependencies_order_counterexample:
  "resolveDependencies 3 cycleService [] (sampleArtifact ''a'' [''b''])
     = Some (Inr [sampleArtifact ''a'' [''b''], sampleArtifact ''b'' [''a'']]) \<and>
   \<not> prerequisitesPrecede cycleService ''c''
       [sampleArtifact ''a'' [''b''], sampleArtifact ''b'' [''a'']] \<and>
   resolveDependencies 3 mirrorService [] (sampleArtifact ''t'' [''b'', ''bee''])
     = Some (Inr [sampleArtifact ''b'' [], sampleArtifact ''b'' []]) \<and>
   \<not> distinct [sampleArtifact ''b'' [], sampleArtifact ''b'' []] \<and>
   findDependency foreignService ''c'' ''m'' = Some (foreignArtifact ''m'' ''m'' [''k'']) \<and>
   findDependency foreignService (catalogId (foreignArtifact ''m'' ''m'' [''k''])) ''k''
     = Some (foreignArtifact ''k'' ''Kit'' []) \<and>
   resolveDependencies 3 foreignService [] (sampleArtifact ''t'' [''m''])
     = Some (Inl (JsError ''Dependency not found: k''))"
proof -
  have p: "\<not> prerequisitesPrecede cycleService ''c''
       [sampleArtifact ''a'' [''b''], sampleArtifact ''b'' [''a'']]"
  proof
    assume "prerequisitesPrecede cycleService ''c''
       [sampleArtifact ''a'' [''b''], sampleArtifact ''b'' [''a'']]"
    then have "\<forall>u \<in> set (dependencies ([sampleArtifact ''a'' [''b''], sampleArtifact ''b'' [''a'']] ! 0)).
        case findDependency cycleService ''c'' u of
          None \<Rightarrow> True
        | Some y \<Rightarrow> y \<in> set [sampleArtifact ''a'' [''b''], sampleArtifact ''b'' [''a'']] \<longrightarrow>
            y \<in> set (take 0 [sampleArtifact ''a'' [''b''], sampleArtifact ''b'' [''a'']])"
      unfolding prerequisitesPrecede_def by simp
    then show False
      by (simp add: sampleArtifact_def findDependency_def cycleService_def byId_def)
  qed
  have m: "resolveDependencies 3 mirrorService [] (sampleArtifact ''t'' [''b'', ''bee''])
     = Some (Inr [sampleArtifact ''b'' [], sampleArtifact ''b'' []])"
    by code_simp
  have f1: "findDependency foreignService ''c'' ''m'' = Some (foreignArtifact ''m'' ''m'' [''k''])"
    by code_simp
  have f2: "findDependency foreignService (catalogId (foreignArtifact ''m'' ''m'' [''k''])) ''k''
     = Some (foreignArtifact ''k'' ''Kit'' [])"
    by code_simp
  have f3: "resolveDependencies 3 foreignService [] (sampleArtifact ''t'' [''m''])
     = Some (Inl (JsError ''Dependency not found: k''))"
    by code_simp
  from cycle_result p m f1 f2 f3 show ?thesis by simp
qed

section \<open>Properties of install\<close>

lemma performInstall_shape:
  assumes "performInstall h a p cfg w = (Inr r, w')"
  shows "resultArtifact r = a \<and> resultPath r = p \<and> (success r \<longleftrightarrow> error r = None)"
  using assms
  by (auto simp: performInstall_def split: option.splits sum.splits prod.splits)

lemma catching_shape:
  assumes "catching a (performInstall h a p cfg w) = (r, w')"
  shows "resultArtifact r = a \<and> (success r \<longleftrightarrow> error r = None)"
proof (cases "performInstall h a p cfg w")
  case (Pair out w1)
  show ?thesis
  proof (cases out)
    case (Inl e)
    with Pair assms show ?thesis by (auto simp: catching_def caught_def)
  next
    case (Inr r1)
    with Pair assms have "r = r1" by (simp add: catching_def)
    with performInstall_shape[of h a p cfg w r1 w1] Pair Inr show ?thesis by simp
  qed
qed

lemma installPlan_Returns:
  assumes "installPlan n h svc a root w = Some (Returns r)"
  shows "resultArtifact r = a \<and> \<not> success r \<and> error r \<noteq> None"
  using assms
  by (auto simp: installPlan_def split: if_splits option.splits sum.splits)

lemma install_shape:
  assumes "install n h svc a root cfg w = Some (r, w')"
  shows "resultArtifact r = a \<and> (success r \<longleftrightarrow> error r = None)"
proof (cases n)
  case 0
  with assms show ?thesis by simp
next
  case (Suc m)
  show ?thesis
  proof (cases "installPlan m h svc a root w")
    case None
    with Suc assms show ?thesis by simp
  next
    case (Some pl)
    show ?thesis
    proof (cases pl)
      case (Throws e)
      with Some Suc assms show ?thesis by (auto simp: caught_def)
    next
      case (Returns r0)
      with Some Suc assms have "r = r0" by simp
      with installPlan_Returns[of m h svc a root w r0] Some Returns show ?thesis by auto
    next
      case (InstallRenamed p)
      with Some Suc assms have "catching a (performInstall h a p cfg w) = (r, w')" by simp
      then show ?thesis by (rule catching_shape)
    next
      case (Proceed ds p)
      with Some Suc assms obtain w1 where
        "catching a (performInstall h a p cfg w1) = (r, w')"
        by (auto split: option.splits)
      then show ?thesis by (rule catching_shape)
    qed
  qed
qed

lemma installPlan_installed:
  assumes "getInstallation (installations (db w)) (catalogId a) (aid a) \<noteq> None"
  shows "installPlan n h svc a root w
           = Some (Throws (JsError ''Artifact already installed. Use update instead.''))"
  using assms by (simp add: installPlan_def)

lemma installPlan_unresolved:
  assumes "getInstallation (installations (db w)) (catalogId a) (aid a) = None"
    and "resolveDependencies n svc (installations (db w)) a = Some (Inl e)"
  shows "installPlan n h svc a root w = Some (Throws e)"
  using assms by (simp add: installPlan_def)

lemma installPlan_free:
  assumes "getInstallation (installations (db w)) (catalogId a) (aid a) = None"
    and "resolveDependencies n svc (installations (db w)) a = Some (Inr ds)"
    and "getInstallPath h a root = Inr p" and "\<not> checkConflict h (fs w) p"
  shows "installPlan n h svc a root w = Some (Proceed ds p)"
  using assms by (simp add: installPlan_def)

lemma installPlan_keep:
  assumes "getInstallation (installations (db w)) (catalogId a) (aid a) = None"
    and "resolveDependencies n svc (installations (db w)) a = Some (Inr ds)"
    and "getInstallPath h a root = Inr p" and "checkConflict h (fs w) p"
    and "promptConflictResolution h (aname a) p = Some res" and "action res = Keep"
  shows "installPlan n h svc a root w
           = Some (Returns \<lparr>success = False, resultArtifact = a, resultPath = p,
                     error = Some ''Keeping existing file''\<rparr>)"
  using assms by (simp add: installPlan_def)

lemma installPlan_keep_cases:
  assumes "getInstallPath h a root = Inr p" and "checkConflict h (fs w) p"
    and "promptConflictResolution h (aname a) p = Some res" and "action res = Keep"
    and "installPlan n h svc a root w = Some pl"
  shows "(\<exists>e. pl = Throws e) \<or>
         pl = Returns \<lparr>success = False, resultArtifact = a, resultPath = p,
                     error = Some ''Keeping existing file''\<rparr>"
  using assms
  by (auto simp: installPlan_def split: if_splits option.splits sum.splits)

lemma resolveDependencies_no_dependencies:
  "dependencies a = [] \<Longrightarrow> resolveDependencies n svc rows a = Some (Inr [])"
  by (simp add: resolveDependencies_def)

lemma installPlan_None_iff:
  "installPlan n h svc a root w = None \<longleftrightarrow>
     getInstallation (installations (db w)) (catalogId a) (aid a) = None \<and>
     resolveDependencies n svc (installations (db w)) a = None"
  by (auto simp: installPlan_def split: if_splits option.splits sum.splits)

lemma installPlan_Proceed:
  assumes "installPlan n h svc a root w = Some (Proceed ds p)"
  shows "resolveDependencies n svc (installations (db w)) a = Some (Inr ds)"
  using assms by (auto simp: installPlan_def split: if_splits option.splits sum.splits)

lemma installPlan_no_workspace:
  assumes "getInstallation (installations (db w)) (catalogId a) (aid a) = None"
    and "resolveDependencies n svc (installations (db w)) a = Some (Inr ds)"
    and "workspaceFolder h = None"
  shows "installPlan n h svc a root w = Some (Throws (JsError ''No workspace folder open''))"
  using assms by (simp add: installPlan_def getInstallPath_def getWorkspaceRootPath_def)

lemma installPlan_cancel:
  assumes "getInstallation (installations (db w)) (catalogId a) (aid a) = None"
    and "resolveDependencies n svc (installations (db w)) a = Some (Inr ds)"
    and "getInstallPath h a root = Inr p" and "checkConflict h (fs w) p"
    and "promptConflictResolution h (aname a) p = None"
  shows "installPlan n h svc a root w
           = Some (Returns \<lparr>success = False, resultArtifact = a, resultPath = p,
                     error = Some ''Installation cancelled''\<rparr>)"
  using assms by (simp add: installPlan_def)

lemma installPlan_workspace:
  assumes "installPlan n h svc a root w = Some pl"
    and "pl = InstallRenamed p \<or> pl = Proceed ds p"
  shows "workspaceFolder h \<noteq> None"
  using assms
  by (auto simp: installPlan_def getInstallPath_def getWorkspaceRootPath_def
      split: if_splits option.splits sum.splits)

lemma reachesOwnInstall_workspace:
  assumes "reachesOwnInstall n h svc a root cfg w p w1"
  shows "workspaceFolder h \<noteq> None"
proof -
  from assms obtain pl ds where "installPlan n h svc a root w = Some pl"
    and "pl = InstallRenamed p \<or> pl = Proceed ds p"
    by (auto simp: reachesOwnInstall_def split: option.splits plan.splits)
  then show ?thesis by (rule installPlan_workspace)
qed

lemma install_own:
  assumes "reachesOwnInstall n h svc a root cfg w p w1"
  shows "install (Suc n) h svc a root cfg w = Some (catching a (performInstall h a p cfg w1))"
  using assms by (auto simp: reachesOwnInstall_def split: option.splits plan.splits)

lemma installSupportingFile_db:
  "db (installSupportingFile h base dir i au f w) = db w"
  by (simp add: installSupportingFile_def Let_def split: sum.splits)

lemma fold_installSupportingFile_db:
  "db (fold (installSupportingFile h base dir i au) files w) = db w"
  by (induction files arbitrary: w) (simp_all add: installSupportingFile_db)

lemma installSupportingFiles_ok:
  assumes "workspaceFolder h \<noteq> None"
  shows "\<exists>w3. installSupportingFiles h a au w = (Inr (), w3) \<and> db w3 = db w"
  using assms
  by (auto simp: installSupportingFiles_def getWorkspaceRootPath_def
      fold_installSupportingFile_db split: option.splits)

lemma performInstall_auth_fails:
  assumes "resolvedAuth h cfg = Inl e"
  shows "performInstall h a p cfg w = (Inl e, w)"
  using assms by (simp add: performInstall_def)

lemma performInstall_fetch_fails:
  assumes "resolvedAuth h cfg = Inr au" and "fetchText h (sourceUrl a) au = Inl e"
  shows "performInstall h a p cfg w
           = (Inr \<lparr>success = False, resultArtifact = a, resultPath = p,
                   error = Some (errorMessage e ''Unknown error during installation'')\<rparr>,
              w\<lparr>requests := requests w @ [sourceUrl a]\<rparr>)"
  using assms by (simp add: performInstall_def downloadAndRecord_def Let_def)

lemma performInstall_mkdir_fails:
  assumes "resolvedAuth h cfg = Inr au" and "fetchText h (sourceUrl a) au = Inr content"
    and "fsCreateDirectory h (fs w) (pathDirname h p) = Inl e"
  shows "performInstall h a p cfg w
           = (Inr \<lparr>success = False, resultArtifact = a, resultPath = p,
                   error = Some (errorMessage e ''Unknown error during installation'')\<rparr>,
              w\<lparr>requests := requests w @ [sourceUrl a]\<rparr>)"
  using assms by (simp add: performInstall_def downloadAndRecord_def Let_def)

lemma performInstall_write_fails:
  assumes "resolvedAuth h cfg = Inr au" and "fetchText h (sourceUrl a) au = Inr content"
    and "fsCreateDirectory h (fs w) (pathDirname h p) = Inr f1"
    and "fsWriteFile h f1 p content = Inl e"
  shows "performInstall h a p cfg w
           = (Inr \<lparr>success = False, resultArtifact = a, resultPath = p,
                   error = Some (errorMessage e ''Unknown error during installation'')\<rparr>,
              w\<lparr>requests := requests w @ [sourceUrl a], fs := f1\<rparr>)"
  using assms by (simp add: performInstall_def downloadAndRecord_def Let_def)

lemma performInstall_record_fails:
  assumes "workspaceFolder h \<noteq> None"
    and "resolvedAuth h cfg = Inr au" and "fetchText h (sourceUrl a) au = Inr content"
    and "fsCreateDirectory h (fs w) (pathDirname h p) = Inr f1"
    and "fsWriteFile h f1 p content = Inr f2"
    and "recordInstallation (db w) a p (now h) = Inl e"
  shows "performInstall h a p cfg w
           = (Inr \<lparr>success = False, resultArtifact = a, resultPath = p,
                   error = Some (errorMessage e ''Unknown error during installation'')\<rparr>,
              snd (installSupportingFiles h a au (w\<lparr>requests := requests w @ [sourceUrl a], fs := f2\<rparr>)))"
proof -
  let ?w2 = "w\<lparr>requests := requests w @ [sourceUrl a], fs := f2\<rparr>"
  from installSupportingFiles_ok[OF assms(1), of a au ?w2] obtain w3 where
    s: "installSupportingFiles h a au ?w2 = (Inr (), w3)" and d: "db w3 = db w" by auto
  from d assms(6) have "recordInstallation (db w3) a p (now h) = Inl e" by simp
  with assms(2-5) s have "downloadAndRecord h a p au w = (Inl e, w3)"
    by (simp add: downloadAndRecord_def Let_def)
  with assms(2) s show ?thesis by (simp add: performInstall_def)
qed




lemma installEach_returns:
  assumes "\<forall>d \<in> set ds. \<forall>w0. install n h svc d root cfg w0 \<noteq> None"
  shows "installEach n h svc ds root cfg w \<noteq> None"
  using assms
proof (induction ds arbitrary: w)
  case Nil
  then show ?case by simp
next
  case (Cons d ds)
  from Cons.prems obtain r w1 where "install n h svc d root cfg w = Some (r, w1)" by fastforce
  with Cons show ?case by simp
qed

lemma install_None_iff:
  "install (Suc n) h svc a root cfg w = None \<longleftrightarrow>
     (getInstallation (installations (db w)) (catalogId a) (aid a) = None \<and>
      resolveDependencies n svc (installations (db w)) a = None) \<or>
     (\<exists>ds p. installPlan n h svc a root w = Some (Proceed ds p) \<and>
        installEach n h svc ds root cfg w = None)"
proof (cases "installPlan n h svc a root w")
  case None
  then show ?thesis using installPlan_None_iff[of n h svc a root w] by simp
next
  case (Some pl)
  then have "\<not> (getInstallation (installations (db w)) (catalogId a) (aid a) = None \<and>
      resolveDependencies n svc (installations (db w)) a = None)"
    using installPlan_None_iff[of n h svc a root w] by simp
  with Some show ?thesis by (cases pl) (auto split: option.splits)
qed

lemma install_returns_ranked:
  assumes "rankedDependencies svc S rk m"
  shows "a \<in> S \<Longrightarrow> rk a < n \<Longrightarrow> install (m + n) h svc a root cfg w \<noteq> None"
proof (induction n arbitrary: a w)
  case 0
  then show ?case by simp
next
  case (Suc n)
  from assms Suc.prems(1) obtain r where
    r: "resolveDependencies (m + n) svc (installations (db w)) a = Some r"
    and lower: "\<forall>ds. r = Inr ds \<longrightarrow> (\<forall>d \<in> set ds. d \<in> S \<and> rk d < rk a)"
    unfolding rankedDependencies_def by (meson le_add1)
  have "\<nexists>ds p. installPlan (m + n) h svc a root w = Some (Proceed ds p) \<and>
          installEach (m + n) h svc ds root cfg w = None"
  proof
    assume "\<exists>ds p. installPlan (m + n) h svc a root w = Some (Proceed ds p) \<and>
          installEach (m + n) h svc ds root cfg w = None"
    then obtain ds p where pl: "installPlan (m + n) h svc a root w = Some (Proceed ds p)"
      and none: "installEach (m + n) h svc ds root cfg w = None" by blast
    from installPlan_Proceed[OF pl] r have "r = Inr ds" by simp
    with lower have "\<forall>d \<in> set ds. d \<in> S \<and> rk d < rk a" by simp
    with Suc.prems(2) have "\<forall>d \<in> set ds. d \<in> S \<and> rk d < n" by auto
    with Suc.IH have "\<forall>d \<in> set ds. \<forall>w0. install (m + n) h svc d root cfg w0 \<noteq> None" by blast
    from installEach_returns[OF this] none show False by blast
  qed
  with r show ?case using install_None_iff[of "m + n" h svc a root cfg w] by simp
qed

lemma pair_ranked:
  "rankedDependencies pairService {sampleArtifact ''a'' [''b''], sampleArtifact ''b'' []}
     (\<lambda>x. length (dependencies x)) 2"
  unfolding rankedDependencies_def
proof (intro ballI allI impI)
  let ?A = "sampleArtifact ''a'' [''b'']"
  let ?B = "sampleArtifact ''b'' []"
  fix x :: artifactWithSource and rows :: "installationRow list" and k :: nat
  assume x: "x \<in> {?A, ?B}" and k: "2 \<le> k"
  show "\<exists>r. resolveDependencies k pairService rows x = Some r \<and>
          (\<forall>ds. r = Inr ds \<longrightarrow>
             (\<forall>d \<in> set ds. d \<in> {?A, ?B} \<and> length (dependencies d) < length (dependencies x)))"
  proof (cases "x = ?B")
    case True
    then have "resolveDependencies k pairService rows x = Some (Inr [])"
      by (simp add: resolveDependencies_def sampleArtifact_def)
    then show ?thesis by simp
  next
    case False
    with x have xa: "x = ?A" by simp
    have fb: "\<And>y. findDependency pairService ''c'' ''b'' = Some y \<Longrightarrow> y = ?B"
      by (simp add: findDependency_def pairService_def byId_def sampleArtifact_def)
    have cl: "closedIds pairService rows ?A {''b''}"
      by (auto simp: closedIds_def nextIds_def findDependency_def pairService_def byId_def
          sampleArtifact_def split: if_splits)
    have "finite {''b''}" "card {''b''} < k" using k by simp_all
    from graphIds_bounded[OF cl this]
    have f: "finite (graphIds pairService rows ?A)" and c: "card (graphIds pairService rows ?A) < k"
      by simp_all
    from resolveDependencies_returns[OF f c] obtain r where
      r: "resolveDependencies k pairService rows ?A = Some r" by blast
    have "\<forall>ds. r = Inr ds \<longrightarrow>
             (\<forall>d \<in> set ds. d \<in> {?A, ?B} \<and> length (dependencies d) < length (dependencies ?A))"
    proof (intro allI impI ballI)
      fix ds d assume "r = Inr ds" and d: "d \<in> set ds"
      with r have rx: "resolveDependencies k pairService rows ?A = Some (Inr ds)" by simp
      from resolveDependencies_members[OF rx d] obtain t where
        t: "t \<in> graphIds pairService rows ?A"
          "toInstall pairService rows (catalogId ?A) t = Some d" by blast
      from t(1) graphIds_least[OF cl] have "t = ''b''" by auto
      with t(2) have "findDependency pairService ''c'' ''b'' = Some d"
        by (auto simp: toInstall_def sample_catalogId split: option.splits if_splits)
      then have "d = ?B" by (rule fb)
      then show "d \<in> {?A, ?B} \<and> length (dependencies d) < length (dependencies ?A)"
        by (simp add: sampleArtifact_def)
    qed
    with r xa show ?thesis by simp
  qed
qed

text \<open>
  On the cycle \<open>a \<rightarrow> b \<rightarrow> a\<close> the dependencies have no rank: the list resolved for
  \<open>a\<close> holds \<open>a\<close> itself, so that the install of \<open>a\<close> starts the install of \<open>a\<close>
  again before it writes anything. It does not return, whatever the bound is.
\<close>

lemma install_cycle_never_returns:
  "install n (sampleHost None []) cycleService (sampleArtifact ''a'' [''b'']) ''.github'' cfg
     (sampleWorld []) = None"
proof (induction n)
  case 0
  show ?case by simp
next
  case (Suc n)
  let ?h = "sampleHost None [] :: (string \<times> string) list host"
  let ?A = "sampleArtifact ''a'' [''b'']"
  let ?B = "sampleArtifact ''b'' [''a'']"
  let ?w = "sampleWorld []"
  let ?p = "''/w/.github/prompts/a.prompt.md''"
  have rows: "installations (db ?w) = []" by (simp add: sampleWorld_def sampleDb_def)
  have ni: "getInstallation (installations (db ?w)) (catalogId ?A) (aid ?A) = None"
    by (simp add: rows getInstallation_def)
  show ?case
  proof (cases "resolveDependencies n cycleService (installations (db ?w)) ?A")
    case None
    with ni have "installPlan n ?h cycleService ?A ''.github'' ?w = None"
      by (simp add: installPlan_None_iff)
    then show ?thesis by simp
  next
    case (Some r)
    then have "resolveDependencies (max n 3) cycleService [] ?A = Some r"
      unfolding rows by (rule resolveDependencies_more_fuel) simp
    moreover have "resolveDependencies (max n 3) cycleService [] ?A = Some (Inr [?A, ?B])"
      using cycle_result by (rule resolveDependencies_more_fuel) simp
    ultimately have res: "resolveDependencies n cycleService (installations (db ?w)) ?A
                            = Some (Inr [?A, ?B])"
      using Some by simp
    have path: "getInstallPath ?h ?A ''.github'' = Inr ?p" by code_simp
    have free: "\<not> checkConflict ?h (fs ?w) ?p" by code_simp
    from installPlan_free[OF ni res path free]
    have "installPlan n ?h cycleService ?A ''.github'' ?w = Some (Proceed [?A, ?B] ?p)" .
    moreover have "installEach n ?h cycleService [?A, ?B] ''.github'' cfg ?w = None"
      using Suc.IH by simp
    ultimately show ?thesis by simp
  qed
qed

text \<open>
  Claim C5. For every artifact, install root and repository configuration, \<open>install\<close>
  never throws: whatever it returns is a result for the artifact whose flag \<open>success\<close>
  is false exactly when it carries an error text. It returns unless the resolution of
  the dependencies or the install of one of them does not; in particular it returns on
  every set of artifacts with ranked dependencies. Every failure gives a failed
  result: an artifact that is already installed, a failed dependency resolution, a
  missing workspace folder and a failed resolution of the credentials give the empty
  path and the message of the error; a cancelled conflict dialog gives the target
  path and \<open>Installation cancelled\<close>; a failed download, a failed creation of the
  directory, a failed write of the main file and a failed record of the installation
  give the target path and the message of the error, whatever the dependencies and
  the configuration are. The state is the one that the steps before the failure have
  left.
\<close>

theorem install_never_throws:
  "(\<forall>r w'. install n h svc a root cfg w = Some (r, w')
      \<longrightarrow> resultArtifact r = a \<and> (success r \<longleftrightarrow> error r = None)) \<and>
   (install (Suc n) h svc a root cfg w = None \<longleftrightarrow>
      (getInstallation (installations (db w)) (catalogId a) (aid a) = None \<and>
       resolveDependencies n svc (installations (db w)) a = None) \<or>
      (\<exists>ds p. installPlan n h svc a root w = Some (Proceed ds p) \<and>
         installEach n h svc ds root cfg w = None)) \<and>
   (rankedDependencies svc S rk m \<and> a \<in> S \<and> rk a < n
      \<longrightarrow> install (m + n) h svc a root cfg w \<noteq> None) \<and>
   (getInstallation (installations (db w)) (catalogId a) (aid a) \<noteq> None
      \<longrightarrow> install (Suc n) h svc a root cfg w
            = Some (\<lparr>success = False, resultArtifact = a, resultPath = [],
                     error = Some ''Artifact already installed. Use update instead.''\<rparr>, w)) \<and>
   (getInstallation (installations (db w)) (catalogId a) (aid a) = None
      \<and> resolveDependencies n svc (installations (db w)) a = Some (Inl e)
      \<longrightarrow> install (Suc n) h svc a root cfg w
            = Some (\<lparr>success = False, resultArtifact = a, resultPath = [],
                     error = Some (errorMessage e ''Unknown error'')\<rparr>, w)) \<and>
   (getInstallation (installations (db w)) (catalogId a) (aid a) = None
      \<and> resolveDependencies n svc (installations (db w)) a = Some (Inr ds)
      \<and> workspaceFolder h = None
      \<longrightarrow> install (Suc n) h svc a root cfg w
            = Some (\<lparr>success = False, resultArtifact = a, resultPath = [],
                     error = Some ''No workspace folder open''\<rparr>, w)) \<and>
   (getInstallation (installations (db w)) (catalogId a) (aid a) = None
      \<and> resolveDependencies n svc (installations (db w)) a = Some (Inr ds)
      \<and> getInstallPath h a root = Inr p \<and> checkConflict h (fs w) p
      \<and> promptConflictResolution h (aname a) p = None
      \<longrightarrow> install (Suc n) h svc a root cfg w
            = Some (\<lparr>success = False, resultArtifact = a, resultPath = p,
                     error = Some ''Installation cancelled''\<rparr>, w)) \<and>
   (reachesOwnInstall n h svc a root cfg w p w1 \<and> resolvedAuth h cfg = Inl e
      \<longrightarrow> install (Suc n) h svc a root cfg w
            = Some (\<lparr>success = False, resultArtifact = a, resultPath = [],
                     error = Some (errorMessage e ''Unknown error'')\<rparr>, w1)) \<and>
   (reachesOwnInstall n h svc a root cfg w p w1 \<and> resolvedAuth h cfg = Inr au
      \<and> fetchText h (sourceUrl a) au = Inl e
      \<longrightarrow> install (Suc n) h svc a root cfg w
            = Some (\<lparr>success = False, resultArtifact = a, resultPath = p,
                     error = Some (errorMessage e ''Unknown error during installation'')\<rparr>,
                    w1\<lparr>requests := requests w1 @ [sourceUrl a]\<rparr>)) \<and>
   (reachesOwnInstall n h svc a root cfg w p w1 \<and> resolvedAuth h cfg = Inr au
      \<and> fetchText h (sourceUrl a) au = Inr content
      \<and> fsCreateDirectory h (fs w1) (pathDirname h p) = Inl e
      \<longrightarrow> install (Suc n) h svc a root cfg w
            = Some (\<lparr>success = False, resultArtifact = a, resultPath = p,
                     error = Some (errorMessage e ''Unknown error during installation'')\<rparr>,
                    w1\<lparr>requests := requests w1 @ [sourceUrl a]\<rparr>)) \<and>
   (reachesOwnInstall n h svc a root cfg w p w1 \<and> resolvedAuth h cfg = Inr au
      \<and> fetchText h (sourceUrl a) au = Inr content
      \<and> fsCreateDirectory h (fs w1) (pathDirname h p) = Inr f1
      \<and> fsWriteFile h f1 p content = Inl e
      \<longrightarrow> install (Suc n) h svc a root cfg w
            = Some (\<lparr>success = False, resultArtifact = a, resultPath = p,
                     error = Some (errorMessage e ''Unknown error during installation'')\<rparr>,
                    w1\<lparr>requests := requests w1 @ [sourceUrl a], fs := f1\<rparr>)) \<and>
   (reachesOwnInstall n h svc a root cfg w p w1 \<and> resolvedAuth h cfg = Inr au
      \<and> fetchText h (sourceUrl a) au = Inr content
      \<and> fsCreateDirectory h (fs w1) (pathDirname h p) = Inr f1
      \<and> fsWriteFile h f1 p content = Inr f2
      \<and> recordInstallation (db w1) a p (now h) = Inl e
      \<longrightarrow> install (Suc n) h svc a root cfg w
            = Some (\<lparr>success = False, resultArtifact = a, resultPath = p,
                     error = Some (errorMessage e ''Unknown error during installation'')\<rparr>,
                    snd (installSupportingFiles h a au
                           (w1\<lparr>requests := requests w1 @ [sourceUrl a], fs := f2\<rparr>))))"
proof (intro conjI allI impI)
  fix r w' assume "install n h svc a root cfg w = Some (r, w')"
  then show "resultArtifact r = a" "success r = (error r = None)"
    using install_shape by blast+
next
  show "install (Suc n) h svc a root cfg w = None \<longleftrightarrow>
      (getInstallation (installations (db w)) (catalogId a) (aid a) = None \<and>
       resolveDependencies n svc (installations (db w)) a = None) \<or>
      (\<exists>ds p. installPlan n h svc a root w = Some (Proceed ds p) \<and>
         installEach n h svc ds root cfg w = None)"
    by (rule install_None_iff)
next
  assume "rankedDependencies svc S rk m \<and> a \<in> S \<and> rk a < n"
  then show "install (m + n) h svc a root cfg w \<noteq> None"
    using install_returns_ranked[of svc S rk m a n h root cfg w] by blast
next
  assume "getInstallation (installations (db w)) (catalogId a) (aid a) \<noteq> None"
  then show "install (Suc n) h svc a root cfg w
            = Some (\<lparr>success = False, resultArtifact = a, resultPath = [],
                     error = Some ''Artifact already installed. Use update instead.''\<rparr>, w)"
    by (simp add: installPlan_installed caught_def errorMessage_def)
next
  assume "getInstallation (installations (db w)) (catalogId a) (aid a) = None
      \<and> resolveDependencies n svc (installations (db w)) a = Some (Inl e)"
  then show "install (Suc n) h svc a root cfg w
            = Some (\<lparr>success = False, resultArtifact = a, resultPath = [],
                     error = Some (errorMessage e ''Unknown error'')\<rparr>, w)"
    by (simp add: installPlan_unresolved caught_def)
next
  assume "getInstallation (installations (db w)) (catalogId a) (aid a) = None
      \<and> resolveDependencies n svc (installations (db w)) a = Some (Inr ds)
      \<and> workspaceFolder h = None"
  then have "installPlan n h svc a root w = Some (Throws (JsError ''No workspace folder open''))"
    using installPlan_no_workspace[of w a n svc ds h root] by simp
  then show "install (Suc n) h svc a root cfg w
            = Some (\<lparr>success = False, resultArtifact = a, resultPath = [],
                     error = Some ''No workspace folder open''\<rparr>, w)"
    by (simp add: caught_def errorMessage_def)
next
  assume "getInstallation (installations (db w)) (catalogId a) (aid a) = None
      \<and> resolveDependencies n svc (installations (db w)) a = Some (Inr ds)
      \<and> getInstallPath h a root = Inr p \<and> checkConflict h (fs w) p
      \<and> promptConflictResolution h (aname a) p = None"
  then have "installPlan n h svc a root w
           = Some (Returns \<lparr>success = False, resultArtifact = a, resultPath = p,
                     error = Some ''Installation cancelled''\<rparr>)"
    using installPlan_cancel[of w a n svc ds h root p] by simp
  then show "install (Suc n) h svc a root cfg w
            = Some (\<lparr>success = False, resultArtifact = a, resultPath = p,
                     error = Some ''Installation cancelled''\<rparr>, w)"
    by simp
next
  assume a: "reachesOwnInstall n h svc a root cfg w p w1 \<and> resolvedAuth h cfg = Inl e"
  then have "performInstall h a p cfg w1 = (Inl e, w1)"
    using performInstall_auth_fails[of h cfg e a p w1] by simp
  with a show "install (Suc n) h svc a root cfg w
            = Some (\<lparr>success = False, resultArtifact = a, resultPath = [],
                     error = Some (errorMessage e ''Unknown error'')\<rparr>, w1)"
    using install_own[of n h svc a root cfg w p w1] by (simp add: catching_def caught_def)
next
  assume a: "reachesOwnInstall n h svc a root cfg w p w1 \<and> resolvedAuth h cfg = Inr au
      \<and> fetchText h (sourceUrl a) au = Inl e"
  then have "performInstall h a p cfg w1
           = (Inr \<lparr>success = False, resultArtifact = a, resultPath = p,
                   error = Some (errorMessage e ''Unknown error during installation'')\<rparr>,
              w1\<lparr>requests := requests w1 @ [sourceUrl a]\<rparr>)"
    using performInstall_fetch_fails[of h cfg au a e p w1] by simp
  with a show "install (Suc n) h svc a root cfg w
            = Some (\<lparr>success = False, resultArtifact = a, resultPath = p,
                     error = Some (errorMessage e ''Unknown error during installation'')\<rparr>,
                    w1\<lparr>requests := requests w1 @ [sourceUrl a]\<rparr>)"
    using install_own[of n h svc a root cfg w p w1] by (simp add: catching_def)
next
  assume a: "reachesOwnInstall n h svc a root cfg w p w1 \<and> resolvedAuth h cfg = Inr au
      \<and> fetchText h (sourceUrl a) au = Inr content
      \<and> fsCreateDirectory h (fs w1) (pathDirname h p) = Inl e"
  then have "performInstall h a p cfg w1
           = (Inr \<lparr>success = False, resultArtifact = a, resultPath = p,
                   error = Some (errorMessage e ''Unknown error during installation'')\<rparr>,
              w1\<lparr>requests := requests w1 @ [sourceUrl a]\<rparr>)"
    using performInstall_mkdir_fails[of h cfg au a content w1 p e] by simp
  with a show "install (Suc n) h svc a root cfg w
            = Some (\<lparr>success = False, resultArtifact = a, resultPath = p,
                     error = Some (errorMessage e ''Unknown error during installation'')\<rparr>,
                    w1\<lparr>requests := requests w1 @ [sourceUrl a]\<rparr>)"
    using install_own[of n h svc a root cfg w p w1] by (simp add: catching_def)
next
  assume a: "reachesOwnInstall n h svc a root cfg w p w1 \<and> resolvedAuth h cfg = Inr au
      \<and> fetchText h (sourceUrl a) au = Inr content
      \<and> fsCreateDirectory h (fs w1) (pathDirname h p) = Inr f1
      \<and> fsWriteFile h f1 p content = Inl e"
  then have "performInstall h a p cfg w1
           = (Inr \<lparr>success = False, resultArtifact = a, resultPath = p,
                   error = Some (errorMessage e ''Unknown error during installation'')\<rparr>,
              w1\<lparr>requests := requests w1 @ [sourceUrl a], fs := f1\<rparr>)"
    using performInstall_write_fails[of h cfg au a content w1 p f1 e] by simp
  with a show "install (Suc n) h svc a root cfg w
            = Some (\<lparr>success = False, resultArtifact = a, resultPath = p,
                     error = Some (errorMessage e ''Unknown error during installation'')\<rparr>,
                    w1\<lparr>requests := requests w1 @ [sourceUrl a], fs := f1\<rparr>)"
    using install_own[of n h svc a root cfg w p w1] by (simp add: catching_def)
next
  assume a: "reachesOwnInstall n h svc a root cfg w p w1 \<and> resolvedAuth h cfg = Inr au
      \<and> fetchText h (sourceUrl a) au = Inr content
      \<and> fsCreateDirectory h (fs w1) (pathDirname h p) = Inr f1
      \<and> fsWriteFile h f1 p content = Inr f2
      \<and> recordInstallation (db w1) a p (now h) = Inl e"
  then have ws: "workspaceFolder h \<noteq> None"
    using reachesOwnInstall_workspace[of n h svc a root cfg w p w1] by simp
  from a have "performInstall h a p cfg w1
           = (Inr \<lparr>success = False, resultArtifact = a, resultPath = p,
                   error = Some (errorMessage e ''Unknown error during installation'')\<rparr>,
              snd (installSupportingFiles h a au
                     (w1\<lparr>requests := requests w1 @ [sourceUrl a], fs := f2\<rparr>)))"
    using performInstall_record_fails[OF ws, of cfg au a content w1 p f1 f2 e] by simp
  with a show "install (Suc n) h svc a root cfg w
            = Some (\<lparr>success = False, resultArtifact = a, resultPath = p,
                     error = Some (errorMessage e ''Unknown error during installation'')\<rparr>,
                    snd (installSupportingFiles h a au
                           (w1\<lparr>requests := requests w1 @ [sourceUrl a], fs := f2\<rparr>)))"
    using install_own[of n h svc a root cfg w p w1] by (simp add: catching_def)
qed

theorem install_never_throws_witness:
  "reachesOwnInstall 2 (sampleHost None ''https://x.dev/prompts/a.md'') pairService
      (sampleArtifact ''a'' [''b'']) ''.github'' (Some sampleConfig) (sampleWorld [])
      ''/w/.github/prompts/a.prompt.md''
      \<lparr>fs = [(''/w/.github/prompts/b.prompt.md'', ''text of https://x.dev/prompts/b.md'')],
        db = sampleDb\<lparr>installations :=
               [\<lparr>rowId = 1, artifact_id = ''b'', catalog_id = ''c'', installedVersion = ''1.0.0'',
                 installed_path = ''/w/.github/prompts/b.prompt.md'', installed_at = 7,
                 last_used = None\<rparr>],
               lastInstallationId := 1\<rparr>,
        requests = [''https://x.dev/prompts/b.md'']\<rparr> \<and>
   install 3 (sampleHost None ''https://x.dev/prompts/a.md'') pairService
      (sampleArtifact ''a'' [''b'']) ''.github'' (Some sampleConfig) (sampleWorld [])
     = Some (\<lparr>success = False, resultArtifact = sampleArtifact ''a'' [''b''],
              resultPath = ''/w/.github/prompts/a.prompt.md'', error = Some ''HTTP 404''\<rparr>,
             \<lparr>fs = [(''/w/.github/prompts/b.prompt.md'', ''text of https://x.dev/prompts/b.md'')],
               db = sampleDb\<lparr>installations :=
                      [\<lparr>rowId = 1, artifact_id = ''b'', catalog_id = ''c'',
                        installedVersion = ''1.0.0'',
                        installed_path = ''/w/.github/prompts/b.prompt.md'', installed_at = 7,
                        last_used = None\<rparr>],
                      lastInstallationId := 1\<rparr>,
               requests = [''https://x.dev/prompts/b.md'', ''https://x.dev/prompts/a.md'']\<rparr>) \<and>
   rankedDependencies pairService {sampleArtifact ''a'' [''b''], sampleArtifact ''b'' []}
     (\<lambda>x. length (dependencies x)) 2 \<and>
   install 4 (sampleHost None ''https://x.dev/prompts/a.md'') pairService
      (sampleArtifact ''a'' [''b'']) ''.github'' (Some sampleConfig) (sampleWorld []) \<noteq> None"
proof -
  let ?h = "sampleHost None ''https://x.dev/prompts/a.md''"
  let ?a = "sampleArtifact ''a'' [''b'']"
  let ?p = "''/w/.github/prompts/a.prompt.md''"
  let ?v = "\<lparr>fs = [(''/w/.github/prompts/b.prompt.md'', ''text of https://x.dev/prompts/b.md'')],
        db = sampleDb\<lparr>installations :=
               [\<lparr>rowId = 1, artifact_id = ''b'', catalog_id = ''c'', installedVersion = ''1.0.0'',
                 installed_path = ''/w/.github/prompts/b.prompt.md'', installed_at = 7,
                 last_used = None\<rparr>],
               lastInstallationId := 1\<rparr>,
        requests = [''https://x.dev/prompts/b.md'']\<rparr> :: (string \<times> string) list world"
  note inst = install_never_throws[where n = 2 and h = ?h and svc = pairService and a = ?a
      and root = "''.github''" and cfg = "Some sampleConfig" and w = "sampleWorld []"
      and p = ?p and ?w1.0 = ?v and au = None and e = "JsError ''HTTP 404''"
      and S = "{sampleArtifact ''a'' [''b''], sampleArtifact ''b'' []}"
      and rk = "\<lambda>x. length (dependencies x)" and m = 2]
  note ranked = inst[THEN conjunct2, THEN conjunct2, THEN conjunct1]
  note fetch = inst[THEN conjunct2, THEN conjunct2, THEN conjunct2, THEN conjunct2,
      THEN conjunct2, THEN conjunct2, THEN conjunct2, THEN conjunct2, THEN conjunct1]
  have 1: "reachesOwnInstall 2 ?h pairService ?a ''.github'' (Some sampleConfig) (sampleWorld [])
             ?p ?v"
    by code_simp
  have 2: "resolvedAuth ?h (Some sampleConfig) = Inr None" by code_simp
  have 3: "fetchText ?h (sourceUrl ?a) None = Inl (JsError ''HTTP 404'')" by code_simp
  have 4: "errorMessage (JsError ''HTTP 404'') ''Unknown error during installation'' = ''HTTP 404''"
    by code_simp
  have 5: "?v\<lparr>requests := requests ?v @ [sourceUrl ?a]\<rparr>
             = \<lparr>fs = [(''/w/.github/prompts/b.prompt.md'', ''text of https://x.dev/prompts/b.md'')],
                db = sampleDb\<lparr>installations :=
                       [\<lparr>rowId = 1, artifact_id = ''b'', catalog_id = ''c'',
                         installedVersion = ''1.0.0'',
                         installed_path = ''/w/.github/prompts/b.prompt.md'', installed_at = 7,
                         last_used = None\<rparr>],
                       lastInstallationId := 1\<rparr>,
                requests = [''https://x.dev/prompts/b.md'', ''https://x.dev/prompts/a.md'']\<rparr>"
    by (simp add: sampleArtifact_def)
  from fetch 1 2 3
  have 6: "install (Suc 2) ?h pairService ?a ''.github'' (Some sampleConfig) (sampleWorld [])
            = Some (\<lparr>success = False, resultArtifact = ?a, resultPath = ?p,
                     error = Some (errorMessage (JsError ''HTTP 404'')
                                     ''Unknown error during installation'')\<rparr>,
                    ?v\<lparr>requests := requests ?v @ [sourceUrl ?a]\<rparr>)"
    by blast
  have 7: "length (dependencies ?a) < 2" by (simp add: sampleArtifact_def)
  from ranked pair_ranked 7
  have 8: "install (2 + 2) ?h pairService ?a ''.github'' (Some sampleConfig) (sampleWorld [])
             \<noteq> None"
    by blast
  have 9: "Suc 2 = 3" "(2 :: nat) + 2 = 4" by simp_all
  show ?thesis
    by (intro conjI 1 6[unfolded 4 5 9] pair_ranked 8[unfolded 9])
qed

text \<open>
  Claim C6. When a file exists at the computed target path and the conflict is
  resolved as \<open>keep\<close>, \<open>install\<close> returns a result that is not a success and leaves
  the file system, the store and the list of requests as they were: nothing is
  downloaded or written and no installation is recorded. When the artifact is not
  installed and its dependencies resolve, the result is the one at the target path
  with the text \<open>Keeping existing file\<close>; and \<open>install\<close> returns whenever the
  resolution of the dependencies does.
\<close>

theorem install_keep_existing:
  assumes "getInstallPath h a root = Inr p" and "checkConflict h (fs w) p"
    and "promptConflictResolution h (aname a) p = Some res" and "action res = Keep"
  shows "(\<forall>r w'. install (Suc n) h svc a root cfg w = Some (r, w') \<longrightarrow> \<not> success r \<and> w' = w) \<and>
         (getInstallation (installations (db w)) (catalogId a) (aid a) = None
            \<and> resolveDependencies n svc (installations (db w)) a = Some (Inr ds)
            \<longrightarrow> install (Suc n) h svc a root cfg w
                  = Some (\<lparr>success = False, resultArtifact = a, resultPath = p,
                           error = Some ''Keeping existing file''\<rparr>, w)) \<and>
         (resolveDependencies n svc (installations (db w)) a \<noteq> None
            \<longrightarrow> install (Suc n) h svc a root cfg w \<noteq> None)"
proof (intro conjI allI impI)
  fix r w' assume i: "install (Suc n) h svc a root cfg w = Some (r, w')"
  then obtain pl where pl: "installPlan n h svc a root w = Some pl"
    by (auto split: option.splits)
  from installPlan_keep_cases[OF assms pl] pl i
  show "\<not> success r" and "w' = w" by (auto simp: caught_def)
next
  assume "getInstallation (installations (db w)) (catalogId a) (aid a) = None
            \<and> resolveDependencies n svc (installations (db w)) a = Some (Inr ds)"
  then show "install (Suc n) h svc a root cfg w
                  = Some (\<lparr>success = False, resultArtifact = a, resultPath = p,
                           error = Some ''Keeping existing file''\<rparr>, w)"
    using installPlan_keep[OF _ _ assms] by simp
next
  assume "resolveDependencies n svc (installations (db w)) a \<noteq> None"
  then obtain x where x: "resolveDependencies n svc (installations (db w)) a = Some x" by blast
  show "install (Suc n) h svc a root cfg w \<noteq> None"
  proof (cases "getInstallation (installations (db w)) (catalogId a) (aid a) = None")
    case False
    then show ?thesis by (simp add: installPlan_installed)
  next
    case True
    show ?thesis
    proof (cases x)
      case (Inl e)
      with x True show ?thesis by (simp add: installPlan_unresolved)
    next
      case (Inr ds)
      with x True show ?thesis using installPlan_keep[OF _ _ assms] by simp
    qed
  qed
qed

theorem install_keep_existing_witness:
  "install 3 (sampleHost (Some ''Keep Existing'') []) pairService (sampleArtifact ''a'' [''b''])
      ''.github'' None (sampleWorld [(''/w/.github/prompts/a.prompt.md'', ''old'')])
     = Some (\<lparr>success = False, resultArtifact = sampleArtifact ''a'' [''b''],
              resultPath = ''/w/.github/prompts/a.prompt.md'',
              error = Some ''Keeping existing file''\<rparr>,
             sampleWorld [(''/w/.github/prompts/a.prompt.md'', ''old'')])"
proof -
  let ?h = "sampleHost (Some ''Keep Existing'') []"
  let ?a = "sampleArtifact ''a'' [''b'']"
  let ?w = "sampleWorld [(''/w/.github/prompts/a.prompt.md'', ''old'')]"
  let ?p = "''/w/.github/prompts/a.prompt.md''"
  have 1: "getInstallPath ?h ?a ''.github'' = Inr ?p" by code_simp
  have 2: "checkConflict ?h (fs ?w) ?p" by code_simp
  have 3: "promptConflictResolution ?h (aname ?a) ?p = Some \<lparr>action = Keep, newName = None\<rparr>"
    by code_simp
  have 4: "action \<lparr>action = Keep, newName = None\<rparr> = Keep" by simp
  have 5: "getInstallation (installations (db ?w)) (catalogId ?a) (aid ?a) = None" by code_simp
  have 6: "resolveDependencies 2 pairService (installations (db ?w)) ?a
             = Some (Inr [sampleArtifact ''b'' []])"
    by code_simp
  from install_keep_existing[OF 1 2 3 4, where n = 2 and svc = pairService
      and ds = "[sampleArtifact ''b'' []]" and cfg = None] 5 6
  show ?thesis by (simp add: numeral_3_eq_3)
qed

text \<open>
  Claim C4, at the input where the code departs from it. The artifact \<open>a\<close> depends on
  \<open>b\<close>, which is not installed; a file exists at the target path of \<open>a\<close> and the
  conflict is resolved by renaming to \<open>a-2\<close>. The resolved dependency set is \<open>[b]\<close>,
  but \<open>install\<close> writes and records \<open>a\<close> under the new name without requesting,
  writing or recording \<open>b\<close>.
\<close>

theorem install_rename_skips_dependencies:
  "resolveDependencies 2 pairService [] (sampleArtifact ''a'' [''b''])
     = Some (Inr [sampleArtifact ''b'' []]) \<and>
   map_option (\<lambda>(r, w). (success r, resultPath r, fs w, map artifact_id (installations (db w)),
                          requests w))
     (install 3 (sampleHost (Some ''Rename'') []) pairService (sampleArtifact ''a'' [''b''])
        ''.github'' None (sampleWorld [(''/w/.github/prompts/a.prompt.md'', ''old'')]))
     = Some (True, ''/w/.github/prompts/a-2.md'',
             [(''/w/.github/prompts/a-2.md'', ''text of https://x.dev/prompts/a.md''),
              (''/w/.github/prompts/a.prompt.md'', ''old'')],
             [''a''], [''https://x.dev/prompts/a.md''])"
  by code_simp




section \<open>Properties of the catalog service\<close>

lemma startsWith_iff: "startsWith s p \<longleftrightarrow> (\<exists>q. s = p @ q)"
  by (induction s p rule: startsWith.induct) auto

lemma strIncludes_iff: "strIncludes s sub \<longleftrightarrow> (\<exists>p q. s = p @ sub @ q)"
proof (induction s)
  case Nil
  then show ?case by auto
next
  case (Cons c cs)
  show ?case
  proof
    assume "strIncludes (c # cs) sub"
    then consider "startsWith (c # cs) sub" | "strIncludes cs sub" by auto
    then show "\<exists>p q. c # cs = p @ sub @ q"
    proof cases
      case 1
      then obtain q where "c # cs = sub @ q" using startsWith_iff by blast
      then have "c # cs = [] @ sub @ q" by simp
      then show ?thesis by blast
    next
      case 2
      with Cons obtain p q where "cs = p @ sub @ q" by blast
      then have "c # cs = (c # p) @ sub @ q" by simp
      then show ?thesis by blast
    qed
  next
    assume "\<exists>p q. c # cs = p @ sub @ q"
    then obtain p q where pq: "c # cs = p @ sub @ q" by blast
    show "strIncludes (c # cs) sub"
    proof (cases p)
      case Nil
      with pq have "startsWith (c # cs) sub" using startsWith_iff by auto
      then show ?thesis by simp
    next
      case (Cons x p')
      with pq have "cs = p' @ sub @ q" by simp
      then have "strIncludes cs sub" using Cons.IH by blast
      then show ?thesis by simp
    qed
  qed
qed

lemma joinWith_includes:
  "x \<in> set xs \<Longrightarrow> \<exists>p q. joinWith sep xs = p @ x @ q"
proof (induction sep xs rule: joinWith.induct)
  case (1 sep)
  then show ?case by simp
next
  case (2 sep y)
  then have "joinWith sep [y] = [] @ x @ []" by simp
  then show ?case by blast
next
  case (3 sep y z zs)
  show ?case
  proof (cases "x = y")
    case True
    then have "joinWith sep (y # z # zs) = [] @ x @ (sep @ joinWith sep (z # zs))" by simp
    then show ?thesis by blast
  next
    case False
    with 3 obtain p q where "joinWith sep (z # zs) = p @ x @ q" by auto
    then have "joinWith sep (y # z # zs) = (y @ sep @ p) @ x @ q" by simp
    then show ?thesis by blast
  qed
qed

lemma diagnostic_includes:
  assumes "i \<in> set issues"
  shows "strIncludes (''Invalid catalog format: '' @ joinWith '', '' (map message issues)) (message i)"
proof -
  from assms have "message i \<in> set (map message issues)" by simp
  from joinWith_includes[OF this] obtain p q where
    "joinWith '', '' (map message issues) = p @ message i @ q" by blast
  then have "''Invalid catalog format: '' @ joinWith '', '' (map message issues)
               = (''Invalid catalog format: '' @ p) @ message i @ q"
    by simp
  then show ?thesis unfolding strIncludes_iff by blast
qed

text \<open>
  Claim C10, as amended. When the validation of a fetched manifest reports several
  issues, the fetch fails with one error whose message is \<open>Invalid catalog format:\<close>
  followed by the messages of all the issues, joined by commas: the message of every
  issue is part of it, not just the first. The paths of the offending fields are not
  part of it. No part of the document is accepted: a catalog is returned only when the
  validation of the whole document succeeds.
\<close>

theorem fetchCatalog_reports_every_message:
  "(fetchJson h u au = Inr data \<and> parseCatalog h data = Inl issues
      \<longrightarrow> fetchCatalog h u au
            = Inl (JsError (''Invalid catalog format: '' @ joinWith '', '' (map message issues)))
          \<and> (\<forall>i \<in> set issues.
                strIncludes (''Invalid catalog format: '' @ joinWith '', '' (map message issues))
                  (message i))) \<and>
   (fetchJson h u au = Inr data \<and> parseCatalog h data = Inr c \<longrightarrow> fetchCatalog h u au = Inr c) \<and>
   ((\<exists>c'. fetchCatalog h u au = Inr c')
      \<longrightarrow> (\<exists>data' c'. fetchJson h u au = Inr data' \<and> parseCatalog h data' = Inr c'))"
proof (intro conjI impI)
  assume "fetchJson h u au = Inr data \<and> parseCatalog h data = Inl issues"
  then show "fetchCatalog h u au
            = Inl (JsError (''Invalid catalog format: '' @ joinWith '', '' (map message issues)))"
    by (simp add: fetchCatalog_def)
  show "\<forall>i \<in> set issues.
                strIncludes (''Invalid catalog format: '' @ joinWith '', '' (map message issues))
                  (message i)"
    using diagnostic_includes by blast
next
  assume "fetchJson h u au = Inr data \<and> parseCatalog h data = Inr c"
  then show "fetchCatalog h u au = Inr c" by (simp add: fetchCatalog_def)
next
  assume "\<exists>c'. fetchCatalog h u au = Inr c'"
  then show "\<exists>data' c'. fetchJson h u au = Inr data' \<and> parseCatalog h data' = Inr c'"
    by (auto simp: fetchCatalog_def split: sum.splits)
qed

theorem fetchCatalog_reports_every_message_witness:
  "fetchCatalog (sampleCatalogHost ''bad'') ''https://x.dev/catalog.json'' None
     = Inl (JsError ''Invalid catalog format: Required, Required'') \<and>
   strIncludes ''Invalid catalog format: Required, Required'' ''Required''"
proof -
  let ?h = "sampleCatalogHost ''bad''"
  let ?issues = "[\<lparr>issuePath = [''version''], message = ''Required''\<rparr>,
                  \<lparr>issuePath = [''artifacts''], message = ''Required''\<rparr>]"
  have 1: "fetchJson ?h ''https://x.dev/catalog.json'' None = Inr ''bad''" by code_simp
  have 2: "parseCatalog ?h ''bad'' = Inl ?issues" by code_simp
  have 3: "''Invalid catalog format: '' @ joinWith '', '' (map message ?issues)
             = ''Invalid catalog format: Required, Required''"
    by simp
  from fetchCatalog_reports_every_message[where h = ?h and u = "''https://x.dev/catalog.json''"
      and au = None and data = "''bad''" and issues = ?issues] 1 2
  have "fetchCatalog ?h ''https://x.dev/catalog.json'' None
            = Inl (JsError (''Invalid catalog format: '' @ joinWith '', '' (map message ?issues)))
          \<and> (\<forall>i \<in> set ?issues.
                strIncludes (''Invalid catalog format: '' @ joinWith '', '' (map message ?issues))
                  (message i))"
    by blast
  then show ?thesis unfolding 3 by simp
qed

text \<open>
  The claim as stated fails for a document that lacks the fields \<open>version\<close> and
  \<open>artifacts\<close>: the diagnostic names neither field.
\<close>

theorem fetchCatalog_names_no_field_counterexample:
  "fetchCatalog (sampleCatalogHost ''bad'') ''https://x.dev/catalog.json'' None
     = Inl (JsError ''Invalid catalog format: Required, Required'') \<and>
   \<not> strIncludes ''Invalid catalog format: Required, Required'' ''version'' \<and>
   \<not> strIncludes ''Invalid catalog format: Required, Required'' ''artifacts''"
  by code_simp

lemma transaction_fails: "transaction body d = (Inl e, d') \<Longrightarrow> d' = d"
  by (auto simp: transaction_def split: sum.splits)

lemma refreshTry_fails: "refreshTry h c config d = (Inl e, d') \<Longrightarrow> d' = d"
  by (auto simp: refreshTry_def split: sum.splits dest: transaction_fails)

lemma updateCatalog_twice:
  "updateCatalog c (\<lambda>r. r\<lparr>status := s2, catError := m, updated_at := t\<rparr>)
     (updateCatalog c (\<lambda>r. r\<lparr>status := s1, updated_at := t\<rparr>) d)
   = d\<lparr>catalogs := map (\<lambda>r. if catId r = c
                               then r\<lparr>status := s2, catError := m, updated_at := t\<rparr> else r)
                      (catalogs d)\<rparr>"
  by (simp add: updateCatalog_def comp_def if_distrib cong: if_cong)

lemma refreshCatalog_fails:
  assumes "refreshCatalog h c config d = (Inl e, d')"
  shows "d' = d\<lparr>catalogs := map (\<lambda>r. if catId r = c
                 then r\<lparr>status := ''error'', catError := Some (errorMessage e ''Unknown error''),
                        updated_at := clock h\<rparr> else r) (catalogs d)\<rparr>"
proof -
  let ?d1 = "updateCatalog c (\<lambda>r. r\<lparr>status := ''updating'', updated_at := clock h\<rparr>) d"
  obtain out d2 where t: "refreshTry h c config ?d1 = (out, d2)" by (cases "refreshTry h c config ?d1")
  with assms have o: "out = Inl e"
    by (cases out) (auto simp: refreshCatalog_def)
  with t have "d2 = ?d1" using refreshTry_fails by blast
  with t o assms have "d' = updateCatalog c
             (\<lambda>r. r\<lparr>status := ''error'', catError := Some (errorMessage e ''Unknown error''),
                     updated_at := clock h\<rparr>) ?d1"
    by (simp add: refreshCatalog_def)
  then show ?thesis by (simp add: updateCatalog_twice)
qed

text \<open>
  Claim C7. When fetching or validating the manifest fails during \<open>refreshCatalog\<close>,
  the error is raised again to the caller; and whenever \<open>refreshCatalog\<close> raises an
  error, the artifact rows and the installations are as they were before, and the row
  of the catalog has the status \<open>error\<close> and the message of the failure in its error
  field.
\<close>

theorem refreshCatalog_failure:
  "(resolveCatalogAuth h (configId config) (auth config) = Inr au
      \<and> fetchCatalog h (configUrl config) au = Inl e
      \<longrightarrow> fst (refreshCatalog h c config d) = Inl e) \<and>
   (\<forall>e' d'. refreshCatalog h c config d = (Inl e', d')
      \<longrightarrow> artifactRows d' = artifactRows d \<and> installations d' = installations d \<and>
          catalogs d' = map (\<lambda>r. if catId r = c
                 then r\<lparr>status := ''error'', catError := Some (errorMessage e' ''Unknown error''),
                        updated_at := clock h\<rparr> else r) (catalogs d))"
proof (intro conjI impI allI)
  assume "resolveCatalogAuth h (configId config) (auth config) = Inr au
      \<and> fetchCatalog h (configUrl config) au = Inl e"
  then show "fst (refreshCatalog h c config d) = Inl e"
    by (simp add: refreshCatalog_def refreshTry_def)
next
  fix e' d' assume "refreshCatalog h c config d = (Inl e', d')"
  from refreshCatalog_fails[OF this]
  show "artifactRows d' = artifactRows d" and "installations d' = installations d"
    and "catalogs d' = map (\<lambda>r. if catId r = c
                 then r\<lparr>status := ''error'', catError := Some (errorMessage e' ''Unknown error''),
                        updated_at := clock h\<rparr> else r) (catalogs d)"
    by simp_all
qed

theorem refreshCatalog_failure_witness:
  "refreshCatalog (sampleCatalogHost ''bad'') ''c'' sampleConfig installedDb
     = (Inl (JsError ''Invalid catalog format: Required, Required''),
        installedDb\<lparr>catalogs :=
          [sampleCatalogRow\<lparr>status := ''error'',
             catError := Some ''Invalid catalog format: Required, Required'',
             updated_at := 9\<rparr>]\<rparr>)"
proof -
  let ?h = "sampleCatalogHost ''bad''"
  let ?e = "JsError ''Invalid catalog format: Required, Required''"
  have 1: "resolveCatalogAuth ?h (configId sampleConfig) (auth sampleConfig) = Inr None"
    by code_simp
  have 2: "fetchCatalog ?h (configUrl sampleConfig) None = Inl ?e" by code_simp
  from refreshCatalog_failure[where h = ?h and config = sampleConfig and au = None and e = ?e
      and c = "''c''" and d = installedDb] 1 2
  have f: "fst (refreshCatalog ?h ''c'' sampleConfig installedDb) = Inl ?e"
    and g: "\<forall>e' d'. refreshCatalog ?h ''c'' sampleConfig installedDb = (Inl e', d')
      \<longrightarrow> artifactRows d' = artifactRows installedDb \<and> installations d' = installations installedDb \<and>
          catalogs d' = map (\<lambda>r. if catId r = ''c''
                 then r\<lparr>status := ''error'', catError := Some (errorMessage e' ''Unknown error''),
                        updated_at := clock ?h\<rparr> else r) (catalogs installedDb)"
    by blast+
  obtain d' where r: "refreshCatalog ?h ''c'' sampleConfig installedDb = (Inl ?e, d')"
    using f by (cases "refreshCatalog ?h ''c'' sampleConfig installedDb") auto
  with g have a: "artifactRows d' = artifactRows installedDb"
    and i: "installations d' = installations installedDb"
    and c: "catalogs d' = map (\<lambda>r. if catId r = ''c''
                 then r\<lparr>status := ''error'', catError := Some (errorMessage ?e ''Unknown error''),
                        updated_at := clock ?h\<rparr> else r) (catalogs installedDb)"
    by blast+
  have l: "lastInstallationId d' = lastInstallationId installedDb"
    using refreshCatalog_fails[OF r] by simp
  have "d' = installedDb\<lparr>catalogs :=
          [sampleCatalogRow\<lparr>status := ''error'',
             catError := Some ''Invalid catalog format: Required, Required'',
             updated_at := 9\<rparr>]\<rparr>"
    using a i c l
    by (simp add: installedDb_def sampleDb_def sampleCatalogRow_def sampleCatalogHost_def
        errorMessage_def)
  with r show ?thesis by simp
qed

lemma insertArtifact_keeps:
  "insertArtifact d row = Inr d' \<Longrightarrow>
   catalogs d' = catalogs d \<and> installations d' = installations d \<and>
   artifactRows d' = artifactRows d @ [row]"
  by (auto simp: insertArtifact_def split: if_splits)

lemma indexArtifacts_keeps:
  "indexArtifacts pn d c meta as = Inr d' \<Longrightarrow>
   catalogs d' = catalogs d \<and> installations d' = installations d"
proof (induction as arbitrary: d)
  case Nil
  then show ?case by simp
next
  case (Cons a as)
  from Cons.prems obtain d1 where
    i: "insertArtifact d \<lparr>artId = aid a, artCatalogId = c,
          source_url = resolveArtifactUrl pn meta a, indexed = a\<rparr> = Inr d1"
    and r: "indexArtifacts pn d1 c meta as = Inr d'"
    by (auto split: sum.splits)
  from Cons.IH[OF r] insertArtifact_keeps[OF i] show ?case by simp
qed

lemma indexArtifacts_succeeds:
  assumes "distinct (map aid as)"
    and "\<exists>cr \<in> set (catalogs d). catId cr = c"
    and "\<forall>r \<in> set (artifactRows d). artCatalogId r = c \<longrightarrow> artId r \<notin> set (map aid as)"
  shows "\<exists>d'. indexArtifacts pn d c meta as = Inr d'"
  using assms
proof (induction as arbitrary: d)
  case Nil
  then show ?case by simp
next
  case (Cons a as)
  let ?row = "\<lparr>artId = aid a, artCatalogId = c, source_url = resolveArtifactUrl pn meta a,
               indexed = a\<rparr>"
  have free: "\<not> (\<exists>r \<in> set (artifactRows d). artId r = artId ?row \<and> artCatalogId r = artCatalogId ?row)"
    using Cons.prems(3) by auto
  have cat: "\<exists>cr \<in> set (catalogs d). catId cr = artCatalogId ?row"
    using Cons.prems(2) by simp
  let ?d1 = "d\<lparr>artifactRows := artifactRows d @ [?row]\<rparr>"
  from free cat have i: "insertArtifact d ?row = Inr ?d1"
    by (simp add: insertArtifact_def)
  have 1: "distinct (map aid as)" using Cons.prems(1) by simp
  have 2: "\<exists>cr \<in> set (catalogs ?d1). catId cr = c" using Cons.prems(2) by simp
  have 3: "\<forall>r \<in> set (artifactRows ?d1). artCatalogId r = c \<longrightarrow> artId r \<notin> set (map aid as)"
    using Cons.prems(1,3) by auto
  from Cons.IH[OF 1 2 3] i show ?case by simp
qed

lemma insertOrReplaceCatalog_catalogs:
  "catalogs (insertOrReplaceCatalog d new)
     = filter (\<lambda>r. catId r \<noteq> catId new \<and> catUrl r \<noteq> catUrl new) (catalogs d) @ [new]"
  by (simp add: insertOrReplaceCatalog_def Let_def clashes_def)

lemma insertOrReplaceCatalog_clears:
  assumes "artifactsHaveCatalogs d"
    and "r \<in> set (artifactRows (insertOrReplaceCatalog d new))"
  shows "artCatalogId r \<noteq> catId new"
proof
  assume eq: "artCatalogId r = catId new"
  from assms(2) have r: "r \<in> set (artifactRows d)"
    and kept: "artCatalogId r \<notin> set (map catId (filter (clashes new) (catalogs d)))"
    by (simp_all add: insertOrReplaceCatalog_def Let_def)
  from assms(1) r obtain cr where cr: "cr \<in> set (catalogs d)" "catId cr = artCatalogId r"
    unfolding artifactsHaveCatalogs_def by blast
  with eq have "clashes new cr" by (simp add: clashes_def)
  with cr have "artCatalogId r \<in> set (map catId (filter (clashes new) (catalogs d)))"
    by force
  with kept show False by contradiction
qed

text \<open>
  Claim C9, as amended. Adding a catalog whose id or URL is that of a stored catalog
  raises no conflict error: when the manifest is fetched and validated and its
  artifacts have distinct ids, \<open>addCatalog\<close> succeeds, the stored rows with that id or
  that URL are deleted, and the new row takes their place.
\<close>

theorem addCatalog_replaces:
  assumes "resolveCatalogAuth h (configId config) (auth config) = Inr au"
    and "fetchCatalog h (configUrl config) au = Inr cat"
    and "distinct (map aid (artifacts cat))"
    and "artifactsHaveCatalogs d"
  shows "\<exists>d'. addCatalog h config d = (Inr (), d') \<and>
           catalogs d' = filter (\<lambda>r. catId r \<noteq> configId config \<and> catUrl r \<noteq> configUrl config)
                           (catalogs d)
                         @ [newCatalogRow h config cat]"
proof -
  let ?new = "newCatalogRow h config cat"
  let ?d1 = "insertOrReplaceCatalog d ?new"
  have id: "catId ?new = configId config" and u: "catUrl ?new = configUrl config"
    by (simp_all add: newCatalogRow_def)
  have c1: "catalogs ?d1 = filter (\<lambda>r. catId r \<noteq> configId config \<and> catUrl r \<noteq> configUrl config)
                           (catalogs d) @ [?new]"
    using insertOrReplaceCatalog_catalogs[of d ?new] id u by simp
  then have 2: "\<exists>cr \<in> set (catalogs ?d1). catId cr = configId config" using id by auto
  have 3: "\<forall>r \<in> set (artifactRows ?d1). artCatalogId r = configId config
             \<longrightarrow> artId r \<notin> set (map aid (artifacts cat))"
    using insertOrReplaceCatalog_clears[OF assms(4), of _ ?new] id by auto
  from indexArtifacts_succeeds[OF assms(3) 2 3] obtain d' where
    i: "indexArtifacts (pathnameOf h) ?d1 (configId config) (metadata cat) (artifacts cat) = Inr d'"
    by blast
  then have "addCatalog h config d = (Inr (), d')"
    using assms(1,2) by (simp add: addCatalog_def transaction_def)
  moreover have "catalogs d' = catalogs ?d1" using indexArtifacts_keeps[OF i] by simp
  ultimately show ?thesis using c1 by simp
qed

theorem addCatalog_replaces_witness:
  "addCatalog (sampleCatalogHost ''good'') sampleConfig installedDb
     = (Inr (), \<lparr>catalogs = [newCatalogRow (sampleCatalogHost ''good'') sampleConfig sampleManifest],
                 artifactRows = [], installations = [], lastInstallationId = 1\<rparr>)"
proof -
  let ?h = "sampleCatalogHost ''good''"
  have 1: "resolveCatalogAuth ?h (configId sampleConfig) (auth sampleConfig) = Inr None"
    by code_simp
  have 2: "fetchCatalog ?h (configUrl sampleConfig) None = Inr sampleManifest" by code_simp
  have 3: "distinct (map aid (artifacts sampleManifest))" by code_simp
  have 4: "artifactsHaveCatalogs installedDb" by code_simp
  from addCatalog_replaces[OF 1 2 3 4] obtain d' where
    r: "addCatalog ?h sampleConfig installedDb = (Inr (), d')" by blast
  have "addCatalog ?h sampleConfig installedDb
     = (Inr (), \<lparr>catalogs = [newCatalogRow ?h sampleConfig sampleManifest],
                 artifactRows = [], installations = [], lastInstallationId = 1\<rparr>)"
    by code_simp
  with r show ?thesis by simp
qed

text \<open>
  The claim as stated fails for a catalog with the id and the URL of a stored one:
  \<open>addCatalog\<close> returns without an error, the stored row is overwritten, and the
  installations of the stored catalog are deleted with it.
\<close>

theorem addCatalog_overwrites_counterexample:
  "getCatalog installedDb ''c'' = Some sampleCatalogRow \<and>
   catUrl sampleCatalogRow = configUrl sampleConfig \<and>
   cname (catMetadata sampleCatalogRow) = ''C'' \<and>
   fst (addCatalog (sampleCatalogHost ''good'') sampleConfig installedDb) = Inr () \<and>
   map_option (\<lambda>r. cname (catMetadata r))
     (getCatalog (snd (addCatalog (sampleCatalogHost ''good'') sampleConfig installedDb)) ''c'')
     = Some ''New'' \<and>
   installations (snd (addCatalog (sampleCatalogHost ''good'') sampleConfig installedDb)) = []"
  by code_simp

end
